theory Spec2Isabelle
  imports Complex_Main
begin

section \<open>Strings\<close>

text \<open>
  JavaScript strings are modelled as \<^typ>\<open>string\<close>: a \<^typ>\<open>char\<close> is a code unit from 0 to
  255, read as the Unicode character of that number (ASCII and Latin-1). Code units above
  255 have no place in this type. The string methods and the regular expressions of
  \<^verbatim>\<open>scraper.js\<close> become list functions; every regular expression of the source is
  anchored or a plain character class, so each one is a \<open>takeWhile\<close>/\<open>dropWhile\<close> or a
  test on a prefix. The classes \<^verbatim>\<open>[A-Z]\<close>, \<^verbatim>\<open>[a-z]\<close> and \<^verbatim>\<open>\d\<close> are ASCII, also under the
  flag \<^verbatim>\<open>i\<close>.
\<close>

definition is_digit :: "char \<Rightarrow> bool" where
  "is_digit c = (c \<in> set ''0123456789'')"

definition is_lower :: "char \<Rightarrow> bool" where
  "is_lower c = (c \<in> set ''abcdefghijklmnopqrstuvwxyz'')"

definition is_upper :: "char \<Rightarrow> bool" where
  "is_upper c = (c \<in> set ''ABCDEFGHIJKLMNOPQRSTUVWXYZ'')"

definition is_alpha :: "char \<Rightarrow> bool" where
  "is_alpha c = (is_lower c \<or> is_upper c)"

definition is_alnum :: "char \<Rightarrow> bool" where
  "is_alnum c = (is_alpha c \<or> is_digit c)"

text \<open>\<^verbatim>\<open>\s\<close> and the characters \<^verbatim>\<open>trim()\<close> removes, among the code units up to 255: tab,
  line feed, vertical tab, form feed, carriage return, space and the no-break space
  U+00A0.\<close>

definition is_space :: "char \<Rightarrow> bool" where
  "is_space c =
     (c \<in> set [CHR 0x09, CHR 0x0A, CHR 0x0B, CHR 0x0C, CHR 0x0D, CHR 0x20, CHR 0xA0])"

text \<open>\<^verbatim>\<open>toLowerCase()\<close>: the letters A to Z, and the Latin-1 capital letters U+00C0 to
  U+00DE without the multiplication sign U+00D7, move up by 32.\<close>

definition upper_letters :: string where
  "upper_letters =
     ''ABCDEFGHIJKLMNOPQRSTUVWXYZ'' @
     [CHR 0xC0, CHR 0xC1, CHR 0xC2, CHR 0xC3, CHR 0xC4, CHR 0xC5, CHR 0xC6, CHR 0xC7,
      CHR 0xC8, CHR 0xC9, CHR 0xCA, CHR 0xCB, CHR 0xCC, CHR 0xCD, CHR 0xCE, CHR 0xCF,
      CHR 0xD0, CHR 0xD1, CHR 0xD2, CHR 0xD3, CHR 0xD4, CHR 0xD5, CHR 0xD6,
      CHR 0xD8, CHR 0xD9, CHR 0xDA, CHR 0xDB, CHR 0xDC, CHR 0xDD, CHR 0xDE]"

definition lower_letters :: string where
  "lower_letters =
     ''abcdefghijklmnopqrstuvwxyz'' @
     [CHR 0xE0, CHR 0xE1, CHR 0xE2, CHR 0xE3, CHR 0xE4, CHR 0xE5, CHR 0xE6, CHR 0xE7,
      CHR 0xE8, CHR 0xE9, CHR 0xEA, CHR 0xEB, CHR 0xEC, CHR 0xED, CHR 0xEE, CHR 0xEF,
      CHR 0xF0, CHR 0xF1, CHR 0xF2, CHR 0xF3, CHR 0xF4, CHR 0xF5, CHR 0xF6,
      CHR 0xF8, CHR 0xF9, CHR 0xFA, CHR 0xFB, CHR 0xFC, CHR 0xFD, CHR 0xFE]"

definition lower_char :: "char \<Rightarrow> char" where
  "lower_char c =
     (case map_of (zip upper_letters lower_letters) c of
        None \<Rightarrow> c
      | Some d \<Rightarrow> d)"

definition toLowerCase :: "string \<Rightarrow> string" where
  "toLowerCase s = map lower_char s"

definition trim :: "string \<Rightarrow> string" where
  "trim s = rev (dropWhile is_space (rev (dropWhile is_space s)))"

fun startsWith :: "string \<Rightarrow> string \<Rightarrow> bool" where
  "startsWith s [] = True"
| "startsWith [] (p # ps) = False"
| "startsWith (c # cs) (p # ps) = (c = p \<and> startsWith cs ps)"

definition endsWith :: "string \<Rightarrow> string \<Rightarrow> bool" where
  "endsWith s p = startsWith (rev s) (rev p)"

fun includes_str :: "string \<Rightarrow> string \<Rightarrow> bool" where
  "includes_str [] p = (p = [])"
| "includes_str (c # cs) p = (startsWith (c # cs) p \<or> includes_str cs p)"

text \<open>\<^verbatim>\<open>indexOf\<close> and \<^verbatim>\<open>lastIndexOf\<close> return \<open>-1\<close> when there is no occurrence.\<close>

fun indexOf :: "string \<Rightarrow> string \<Rightarrow> int" where
  "indexOf [] p = (if p = [] then 0 else -1)"
| "indexOf (c # cs) p =
     (if startsWith (c # cs) p then 0
      else (let i = indexOf cs p in if i < 0 then -1 else i + 1))"

fun lastIndexOf :: "string \<Rightarrow> string \<Rightarrow> int" where
  "lastIndexOf [] p = (if p = [] then 0 else -1)"
| "lastIndexOf (c # cs) p =
     (let i = lastIndexOf cs p in
      if 0 \<le> i then i + 1 else if startsWith (c # cs) p then 0 else -1)"

section \<open>Email cleaning and validation\<close>

text \<open>\<^verbatim>\<open>isValidTld\<close>: letters only, length 2 to 24.\<close>

definition isValidTld :: "string \<Rightarrow> bool" where
  "isValidTld tld =
     (if tld = [] then False
      else (let x = toLowerCase tld in
            list_all is_lower x \<and> 2 \<le> length x \<and> length x \<le> 24))"

text \<open>The separators \<^verbatim>\<open>[:\-_]\<close> that may follow a glued label.\<close>

definition is_label_sep :: "char \<Rightarrow> bool" where
  "is_label_sep c = (c \<in> set '':-_'')"

definition stripEmailLabelGlue :: "string \<Rightarrow> string" where
  "stripEmailLabelGlue rawCandidate =
     (let s = trim rawCandidate;
          atIndex = indexOf s ''@''
      in if atIndex \<le> 0 then s
         else
           (let left = take (nat atIndex) s;
                right = drop (nat atIndex + 1) s;
                lowerLeft = toLowerCase left;
                idxEmail = lastIndexOf lowerLeft ''email'';
                idxEMail = lastIndexOf lowerLeft ''e-mail'';
                idx = max idxEmail idxEMail
            in if idx = -1 then s
               else
                 (let labelLen = (if idxEMail = idx then 6 else 5);
                      cutPos = nat (idx + labelLen);
                      newLeft = dropWhile is_label_sep (drop cutPos left)
                  in if newLeft = [] then s else newLeft @ ''@'' @ right)))"

text \<open>The character classes of the grammar
  \<^verbatim>\<open>^([A-Za-z0-9._%+-]{1,64})@([A-Za-z0-9.-]{1,253})$\<close>.\<close>

definition is_local_char :: "char \<Rightarrow> bool" where
  "is_local_char c = (is_alnum c \<or> c \<in> set ''._%+-'')"

definition is_domain_char :: "char \<Rightarrow> bool" where
  "is_domain_char c = (is_alnum c \<or> c \<in> set ''.-'')"

definition valid_local :: "string \<Rightarrow> bool" where
  "valid_local l = (list_all is_local_char l \<and> 1 \<le> length l \<and> length l \<le> 64)"

text \<open>The match of the grammar: neither class contains \<^verbatim>\<open>@\<close>, so the local part is
  the text before the first \<^verbatim>\<open>@\<close> and the domain is all that follows it.\<close>

definition match_email :: "string \<Rightarrow> (string \<times> string) option" where
  "match_email email =
     (let l = takeWhile (\<lambda>c. c \<noteq> CHR ''@'') email;
          r = dropWhile (\<lambda>c. c \<noteq> CHR ''@'') email
      in case r of
           [] \<Rightarrow> None
         | c # d \<Rightarrow>
             if valid_local l \<and> list_all is_domain_char d \<and> 1 \<le> length d \<and> length d \<le> 253
             then Some (l, d) else None)"

text \<open>The wrapping punctuation of \<^verbatim>\<open>/^[<("'\[\{]+/\<close> and \<^verbatim>\<open>/[>)"'\]\}.,;:!]+$/\<close>.\<close>

definition is_open_punct :: "char \<Rightarrow> bool" where
  "is_open_punct c = (c \<in> set [CHR ''<'', CHR ''('', CHR 0x22, CHR 0x27, CHR ''['', CHR ''{''])"

definition is_close_punct :: "char \<Rightarrow> bool" where
  "is_close_punct c =
     (c \<in> set [CHR ''>'', CHR '')'', CHR 0x22, CHR 0x27, CHR '']'', CHR ''}'',
               CHR ''.'', CHR '','', CHR '';'', CHR '':'', CHR ''!''])"

definition strip_wrapping :: "string \<Rightarrow> string" where
  "strip_wrapping s = rev (dropWhile is_close_punct (rev (dropWhile is_open_punct s)))"

text \<open>
  FIX 1, \<^verbatim>\<open>/^%(?:20|09|0a|0d)+/i\<close>: one percent sign, then one or more of the two-character
  codes. The quantifier repeats the code only, not the percent sign.
\<close>

definition is_ws_code :: "char \<Rightarrow> char \<Rightarrow> bool" where
  "is_ws_code a b = (toLowerCase [a, b] \<in> set [''20'', ''09'', ''0a'', ''0d''])"

fun drop_ws_codes :: "string \<Rightarrow> string" where
  "drop_ws_codes (a # b # r) = (if is_ws_code a b then drop_ws_codes r else a # b # r)"
| "drop_ws_codes r = r"

definition strip_encoded_ws :: "string \<Rightarrow> string" where
  "strip_encoded_ws local =
     (case local of
        p # a # b # r \<Rightarrow>
          if p = CHR ''%'' \<and> is_ws_code a b then drop_ws_codes r else local
      | _ \<Rightarrow> local)"

text \<open>
  FIX 2: the test \<^verbatim>\<open>/^\d{1,3}%[A-Za-z]/\<close>, then the replacement of
  \<^verbatim>\<open>/^\d{1,3}%+/\<close>. Both are anchored, so the digits they read are the whole leading
  run of digits, which must have length 1 to 3.
\<close>

definition strip_percent_glue :: "string \<Rightarrow> string" where
  "strip_percent_glue local =
     (let ds = takeWhile is_digit local;
          r = dropWhile is_digit local
      in if 1 \<le> length ds \<and> length ds \<le> 3 \<and>
            (case r of p # a # _ \<Rightarrow> p = CHR ''%'' \<and> is_alpha a | _ \<Rightarrow> False)
         then dropWhile (\<lambda>c. c = CHR ''%'') r
         else local)"

definition cleanEmail :: "string \<Rightarrow> string option" where
  "cleanEmail candidate =
     (if candidate = [] then None
      else
        (let email = stripEmailLabelGlue (strip_wrapping (trim candidate))
         in if list_ex is_space email then None
            else
              (case match_email email of
                 None \<Rightarrow> None
               | Some (l, domain) \<Rightarrow>
                   (let local = strip_percent_glue (strip_encoded_ws l)
                    in if local = [] then None
                       else if \<not> valid_local local then None
                       else
                         (let lastDot = lastIndexOf domain ''.''
                          in if lastDot \<le> 0 \<or> lastDot = int (length domain) - 1 then None
                             else
                               (let tld = drop (nat lastDot + 1) domain
                                in if \<not> isValidTld tld then None
                                   else if includes_str domain ''..'' then None
                                   else if last domain \<in> set ''-.'' \<or> hd domain \<in> set ''-.''
                                   then None
                                   else Some (local @ ''@'' @ domain)))))))"

section \<open>URLs\<close>

text \<open>
  \<^verbatim>\<open>URL\<close> is the platform's class, not code of the repository. A parsed URL is a record of
  the components the URL standard keeps: a missing host, port, query or fragment is
  \<open>None\<close>, and \<open>url_opaque\<close> marks a path that is an opaque string (as in
  \<^verbatim>\<open>mailto:\<close> URLs), on which the host and path setters do nothing. The parser itself
  is a parameter \<open>P\<close> of every function that calls \<^verbatim>\<open>new URL(input, base)\<close>:
  \<open>P input base\<close> is \<open>None\<close> where the constructor throws.
\<close>

record url =
  url_scheme :: string
  url_username :: string
  url_password :: string
  url_host :: "string option"
  url_port :: "string option"
  url_path :: string
  url_opaque :: bool
  url_query :: "string option"
  url_fragment :: "string option"

type_synonym url_parser = "string \<Rightarrow> string option \<Rightarrow> url option"

subsection \<open>Getters\<close>

definition protocol :: "url \<Rightarrow> string" where
  "protocol u = url_scheme u @ '':''"

definition hostname :: "url \<Rightarrow> string" where
  "hostname u = (case url_host u of None \<Rightarrow> [] | Some h \<Rightarrow> h)"

definition port :: "url \<Rightarrow> string" where
  "port u = (case url_port u of None \<Rightarrow> [] | Some p \<Rightarrow> p)"

definition pathname :: "url \<Rightarrow> string" where
  "pathname u = url_path u"

text \<open>\<^verbatim>\<open>host\<close> is the hostname followed by \<^verbatim>\<open>:port\<close> when there is a port.\<close>

definition host_port :: "url \<Rightarrow> string" where
  "host_port u = hostname u @ (case url_port u of None \<Rightarrow> [] | Some p \<Rightarrow> '':'' @ p)"

text \<open>\<^verbatim>\<open>origin\<close>: scheme, host and port for the schemes that have a tuple origin, the
  string \<^verbatim>\<open>null\<close> for the others (a \<^verbatim>\<open>blob:\<close> URL, which has the origin of the URL it
  wraps, is left out: \<^verbatim>\<open>toBaseUrl\<close> reads the origin of http and https URLs only).\<close>

definition origin :: "url \<Rightarrow> string" where
  "origin u =
     (if url_scheme u \<in> set [''http'', ''https'', ''ftp'', ''ws'', ''wss'']
      then protocol u @ ''//'' @ host_port u
      else ''null'')"

text \<open>\<^verbatim>\<open>toString()\<close> is the URL serializer.\<close>

definition toString :: "url \<Rightarrow> string" where
  "toString u =
     protocol u
     @ (case url_host u of
          None \<Rightarrow> (if \<not> url_opaque u \<and> startsWith (url_path u) ''//'' then ''/.'' else [])
        | Some h \<Rightarrow>
            ''//''
            @ (if url_username u \<noteq> [] \<or> url_password u \<noteq> []
               then url_username u
                    @ (if url_password u \<noteq> [] then '':'' @ url_password u else [])
                    @ ''@''
               else [])
            @ host_port u)
     @ url_path u
     @ (case url_query u of None \<Rightarrow> [] | Some q \<Rightarrow> ''?'' @ q)
     @ (case url_fragment u of None \<Rightarrow> [] | Some f \<Rightarrow> ''#'' @ f)"

subsection \<open>Setters, at the values \<^verbatim>\<open>normalizeUrl\<close> assigns\<close>

text \<open>
  \<^verbatim>\<open>u.hash = ""\<close> and \<^verbatim>\<open>u.port = ""\<close> remove the fragment and the port. The hostname
  and pathname setters return at once on an opaque path; otherwise, given the URL's own
  hostname in lower case or its own path without the last slash, they store that value.
\<close>

definition clear_hash :: "url \<Rightarrow> url" where
  "clear_hash u = u\<lparr>url_fragment := None\<rparr>"

definition clear_port :: "url \<Rightarrow> url" where
  "clear_port u = u\<lparr>url_port := None\<rparr>"

definition set_hostname :: "string \<Rightarrow> url \<Rightarrow> url" where
  "set_hostname h u = (if url_opaque u then u else u\<lparr>url_host := Some h\<rparr>)"

definition set_pathname :: "string \<Rightarrow> url \<Rightarrow> url" where
  "set_pathname p u = (if url_opaque u then u else u\<lparr>url_path := p\<rparr>)"

subsection \<open>\<^verbatim>\<open>toBaseUrl\<close> and \<^verbatim>\<open>normalizeUrl\<close>\<close>

text \<open>The test \<^verbatim>\<open>/^https?:\/\//i\<close>.\<close>

definition has_http_prefix :: "string \<Rightarrow> bool" where
  "has_http_prefix raw =
     (startsWith (toLowerCase raw) ''http://'' \<or> startsWith (toLowerCase raw) ''https://'')"

definition toBaseUrl :: "url_parser \<Rightarrow> string \<Rightarrow> string option" where
  "toBaseUrl P input =
     (if input = [] then None
      else
        (let raw0 = trim input;
             raw = (if \<not> has_http_prefix raw0 then ''https://'' @ raw0 else raw0)
         in case P raw None of
              None \<Rightarrow> None
            | Some u \<Rightarrow>
                if protocol u \<noteq> ''http:'' \<and> protocol u \<noteq> ''https:'' then None
                else Some (origin u @ ''/'')))"

text \<open>The body of \<^verbatim>\<open>normalizeUrl\<close> between the parse and \<^verbatim>\<open>toString\<close>, statement by
  statement.\<close>

definition normalize_fields :: "url \<Rightarrow> url" where
  "normalize_fields u0 =
     (let u1 = clear_hash u0;
          u2 = set_hostname (toLowerCase (hostname u1)) u1;
          u3 = (if (protocol u2 = ''http:'' \<and> port u2 = ''80'') \<or>
                   (protocol u2 = ''https:'' \<and> port u2 = ''443'')
                then clear_port u2 else u2);
          u4 = (if length (pathname u3) > 1 \<and> endsWith (pathname u3) ''/''
                then set_pathname (butlast (pathname u3)) u3 else u3)
      in u4)"

text \<open>\<^verbatim>\<open>baseForRelative ? new URL(url, baseForRelative) : new URL(url)\<close>: an empty base
  is falsy, so the URL is then parsed without a base.\<close>

definition new_URL :: "url_parser \<Rightarrow> string \<Rightarrow> string option \<Rightarrow> url option" where
  "new_URL P link baseForRelative =
     P link (if baseForRelative = Some [] then None else baseForRelative)"

definition normalizeUrl :: "url_parser \<Rightarrow> string \<Rightarrow> string option \<Rightarrow> string option" where
  "normalizeUrl P link baseForRelative =
     (case new_URL P link baseForRelative of
        None \<Rightarrow> None
      | Some u \<Rightarrow> Some (toString (normalize_fields u)))"

subsection \<open>A reference parser\<close>

text \<open>
  The platform's parser written out for the URLs a crawl of one site meets: absolute
  \<^verbatim>\<open>http\<close> and \<^verbatim>\<open>https\<close> URLs \<^verbatim>\<open>scheme://host[:port][/path][?query][#fragment]\<close>
  over letters, digits and the punctuation the parser leaves as it is, and references
  relative to such a base. On these it does what the URL standard says: scheme and host
  in lower case, a default port dropped, a port above 65535 refused, \<^verbatim>\<open>.\<close> and \<^verbatim>\<open>..\<close>
  segments resolved, an empty path read as \<^verbatim>\<open>/\<close>. Any other input is outside its domain
  and gives \<open>None\<close>. It instantiates the parameter \<open>P\<close> where a function is run on
  concrete URLs; the general theorems hold for every parser.
\<close>

definition is_url_char :: "char \<Rightarrow> bool" where
  "is_url_char c = (is_alnum c \<or> c \<in> set ''-._~!$&()*+,;=:@'')"

definition is_host_char :: "char \<Rightarrow> bool" where
  "is_host_char c = (is_alnum c \<or> c \<in> set ''-.'')"

fun split_on :: "char \<Rightarrow> string \<Rightarrow> string list" where
  "split_on c [] = [[]]"
| "split_on c (x # xs) =
     (if x = c then [] # split_on c xs
      else (case split_on c xs of [] \<Rightarrow> [[x]] | w # ws \<Rightarrow> (x # w) # ws))"

text \<open>A host is kept as a domain name when its last label starts with a letter (so it
  is not read as an IPv4 number) and no label is in Punycode.\<close>

definition host_ok :: "string \<Rightarrow> bool" where
  "host_ok h =
     (h \<noteq> [] \<and> list_all is_host_char h \<and>
      (case last (split_on (CHR ''.'') h) of [] \<Rightarrow> False | c # _ \<Rightarrow> is_alpha c) \<and>
      \<not> includes_str (toLowerCase h) ''xn--'')"

definition digit_val :: "char \<Rightarrow> int" where
  "digit_val c =
     (case map_of (zip ''0123456789'' [0, 1, 2, 3, 4, 5, 6, 7, 8, 9]) c of
        None \<Rightarrow> 0 | Some n \<Rightarrow> n)"

definition digits_val :: "string \<Rightarrow> int" where
  "digits_val ds = foldl (\<lambda>a c. 10 * a + digit_val c) 0 ds"

text \<open>The port after the colon: \<open>None\<close> is a parse failure, \<open>Some None\<close> no port or
  the default port of the scheme.\<close>

definition parse_port :: "string \<Rightarrow> string \<Rightarrow> string option option" where
  "parse_port sc ds =
     (if \<not> list_all is_digit ds then None
      else if ds = [] then Some None
      else if 65535 < digits_val ds then None
      else
        (let p = (case dropWhile (\<lambda>c. c = CHR ''0'') ds of [] \<Rightarrow> ''0'' | d # r \<Rightarrow> d # r)
         in if (sc = ''http'' \<and> p = ''80'') \<or> (sc = ''https'' \<and> p = ''443'')
            then Some None else Some (Some p)))"

fun resolve_segments :: "string list \<Rightarrow> string list \<Rightarrow> string list" where
  "resolve_segments acc [] = acc"
| "resolve_segments acc [s] =
     (if s = ''..'' then butlast acc @ [[]]
      else if s = ''.'' then acc @ [[]]
      else acc @ [s])"
| "resolve_segments acc (s # t) =
     (if s = ''..'' then resolve_segments (butlast acc) t
      else if s = ''.'' then resolve_segments acc t
      else resolve_segments (acc @ [s]) t)"

definition path_of_segments :: "string list \<Rightarrow> string" where
  "path_of_segments segs = concat (map (\<lambda>s. CHR ''/'' # s) segs)"

definition is_path_end :: "char \<Rightarrow> bool" where
  "is_path_end c = (c = CHR ''?'' \<or> c = CHR ''#'')"

text \<open>The query and the fragment of what follows the path.\<close>

definition parse_tail :: "string \<Rightarrow> string option \<times> string option" where
  "parse_tail t =
     (case t of
        [] \<Rightarrow> (None, None)
      | c # r \<Rightarrow>
          if c = CHR ''#'' then (None, Some r)
          else
            (Some (takeWhile (\<lambda>x. x \<noteq> CHR ''#'') r),
             (case dropWhile (\<lambda>x. x \<noteq> CHR ''#'') r of [] \<Rightarrow> None | _ # f \<Rightarrow> Some f)))"

definition tail_ok :: "string option \<times> string option \<Rightarrow> bool" where
  "tail_ok qf =
     (list_all (\<lambda>c. is_url_char c \<or> c \<in> set ''/?'') (case fst qf of None \<Rightarrow> [] | Some q \<Rightarrow> q) \<and>
      list_all (\<lambda>c. is_url_char c \<or> c \<in> set ''/?'') (case snd qf of None \<Rightarrow> [] | Some f \<Rightarrow> f))"

definition path_ok :: "string \<Rightarrow> bool" where
  "path_ok p = list_all (\<lambda>c. is_url_char c \<or> c = CHR ''/'') p"

definition parse_absolute :: "string \<Rightarrow> url option" where
  "parse_absolute input =
     (let l = toLowerCase input;
          sc = (if startsWith l ''https://'' then ''https''
                else if startsWith l ''http://'' then ''http'' else [])
      in if sc = [] then None
         else
           (let rest = drop (length sc + 3) input;
                auth = takeWhile (\<lambda>c. c \<notin> set ''/?#'') rest;
                after = dropWhile (\<lambda>c. c \<notin> set ''/?#'') rest;
                h = toLowerCase (takeWhile (\<lambda>c. c \<noteq> CHR '':'') auth);
                ds = drop 1 (dropWhile (\<lambda>c. c \<noteq> CHR '':'') auth);
                p = takeWhile (\<lambda>c. \<not> is_path_end c) after;
                qf = parse_tail (dropWhile (\<lambda>c. \<not> is_path_end c) after)
            in if \<not> host_ok h \<or> \<not> path_ok p \<or> \<not> tail_ok qf then None
               else
                 (case parse_port sc ds of
                    None \<Rightarrow> None
                  | Some pt \<Rightarrow>
                      Some \<lparr>url_scheme = sc, url_username = [], url_password = [],
                            url_host = Some h, url_port = pt,
                            url_path = path_of_segments (resolve_segments [] (split_on (CHR ''/'') (drop 1 p))),
                            url_opaque = False,
                            url_query = fst qf, url_fragment = snd qf\<rparr>)))"

definition parse_relative :: "url \<Rightarrow> string \<Rightarrow> url option" where
  "parse_relative b input =
     (let p = takeWhile (\<lambda>c. \<not> is_path_end c) input;
          qf = parse_tail (dropWhile (\<lambda>c. \<not> is_path_end c) input)
      in if \<not> path_ok p \<or> \<not> tail_ok qf then None
         else if list_ex (\<lambda>c. c = CHR '':'') (takeWhile (\<lambda>c. c \<noteq> CHR ''/'') p) then None
         else if input = [] then Some (b\<lparr>url_fragment := None\<rparr>)
         else if p = [] \<and> fst qf = None then Some (b\<lparr>url_fragment := snd qf\<rparr>)
         else if p = [] then Some (b\<lparr>url_query := fst qf, url_fragment := snd qf\<rparr>)
         else if startsWith p ''//'' then parse_absolute (url_scheme b @ '':'' @ input)
         else
           (let segs = (if startsWith p ''/''
                        then resolve_segments [] (split_on (CHR ''/'') (drop 1 p))
                        else resolve_segments
                               (butlast (split_on (CHR ''/'') (drop 1 (url_path b))))
                               (split_on (CHR ''/'') p))
            in Some (b\<lparr>url_path := path_of_segments segs,
                       url_query := fst qf, url_fragment := snd qf\<rparr>)))"

definition parseURL :: url_parser where
  "parseURL input base =
     (case parse_absolute input of
        Some u \<Rightarrow> Some u
      | None \<Rightarrow>
          if has_http_prefix input then None
          else
            (case base of
               None \<Rightarrow> None
             | Some b \<Rightarrow>
                 (case parse_absolute b of
                    None \<Rightarrow> None
                  | Some bu \<Rightarrow> parse_relative bu input)))"

section \<open>The scraper\<close>

text \<open>
  The fields of \<^verbatim>\<open>EmailScraper\<close> that the crawl reads and writes. The three budgets are
  numbers: the constructor clamps an option into its range and does not round it, so a
  fraction such as 1.5 stays a fraction. The three \<^verbatim>\<open>Set\<close>s are sets of strings, and
  \<^verbatim>\<open>size\<close> is \<open>card\<close>.
\<close>

record scraper =
  baseUrl :: string
  baseDomain :: string
  maxPages :: rat
  concurrency :: rat
  fast :: bool
  maxEmails :: rat
  queue :: "string list"
  qIndex :: nat
  visitedUrls :: "string set"
  enqueuedUrls :: "string set"
  emails :: "string set"

subsection \<open>The frontier\<close>

definition isSameDomain :: "url_parser \<Rightarrow> scraper \<Rightarrow> string \<Rightarrow> bool" where
  "isSameDomain P s link =
     (case P link None of None \<Rightarrow> False | Some u \<Rightarrow> hostname u = baseDomain s)"

definition enqueue :: "url_parser \<Rightarrow> scraper \<Rightarrow> string \<Rightarrow> scraper" where
  "enqueue P s link =
     (case normalizeUrl P link (Some (baseUrl s)) of
        None \<Rightarrow> s
      | Some normed \<Rightarrow>
          if normed = [] then s
          else if \<not> isSameDomain P s normed then s
          else if normed \<in> visitedUrls s then s
          else if normed \<in> enqueuedUrls s then s
          else s\<lparr>enqueuedUrls := insert normed (enqueuedUrls s),
                 queue := queue s @ [normed]\<rparr>)"

text \<open>\<^verbatim>\<open>getNextUrl\<close> returns the URL, or \<open>None\<close> for \<^verbatim>\<open>null\<close>, and the scraper with
  the cursor advanced.\<close>

function getNextUrl :: "scraper \<Rightarrow> string option \<times> scraper" where
  "getNextUrl s =
     (if qIndex s < length (queue s)
      then (if queue s ! qIndex s = [] then getNextUrl (s\<lparr>qIndex := qIndex s + 1\<rparr>)
            else if queue s ! qIndex s \<in> visitedUrls s
            then getNextUrl (s\<lparr>qIndex := qIndex s + 1\<rparr>)
            else (Some (queue s ! qIndex s), s\<lparr>qIndex := qIndex s + 1\<rparr>))
      else (None, s))"
  by pat_completeness auto
termination
  by (relation "measure (\<lambda>s. length (queue s) - qIndex s)") auto

declare getNextUrl.simps [simp del]

definition storeEmail :: "scraper \<Rightarrow> string \<Rightarrow> scraper" where
  "storeEmail s candidate =
     (case cleanEmail candidate of
        None \<Rightarrow> s
      | Some cleaned \<Rightarrow> s\<lparr>emails := insert cleaned (emails s)\<rparr>)"

definition shouldStop :: "scraper \<Rightarrow> bool" where
  "shouldStop s =
     (maxEmails s \<le> of_nat (card (emails s)) \<or> maxPages s \<le> of_nat (card (visitedUrls s)))"

subsection \<open>The constructor\<close>

record options =
  opt_maxPages :: "rat option"
  opt_concurrency :: "rat option"
  opt_fast :: "bool option"
  opt_maxEmails :: "rat option"

text \<open>
  An option is a number or is missing; that it is a number is the caller's business
  (the request handler refuses what \<^verbatim>\<open>isNaN\<close> refuses).
  \<^verbatim>\<open>Math.max(1, Math.min(Number(v || d), hi))\<close>: a missing or zero option is falsy and
  takes the default \<open>d\<close>; nothing is rounded.
\<close>

definition clamp_budget :: "rat option \<Rightarrow> rat \<Rightarrow> rat \<Rightarrow> rat" where
  "clamp_budget v d hi =
     max 1 (min (case v of None \<Rightarrow> d | Some x \<Rightarrow> if x = 0 then d else x) hi)"

definition likelyPages :: "string list" where
  "likelyPages =
     [''contact'', ''contact-us'', ''about'', ''about-us'', ''support'', ''help'',
      ''privacy'', ''terms'', ''impressum'']"

text \<open>The loop of \<^verbatim>\<open>seedQueue\<close>; \<open>None\<close> when \<^verbatim>\<open>new URL(p, base)\<close> throws.\<close>

fun seed_pages :: "url_parser \<Rightarrow> scraper \<Rightarrow> string list \<Rightarrow> scraper option" where
  "seed_pages P s [] = Some s"
| "seed_pages P s (p # ps) =
     (case P p (Some (baseUrl s)) of
        None \<Rightarrow> None
      | Some u \<Rightarrow> seed_pages P (enqueue P s (toString u)) ps)"

definition seedQueue :: "url_parser \<Rightarrow> scraper \<Rightarrow> scraper option" where
  "seedQueue P s =
     (let s1 = enqueue P s (baseUrl s)
      in if \<not> fast s1 then Some s1 else seed_pages P s1 likelyPages)"

text \<open>\<^verbatim>\<open>new EmailScraper(inputUrl, options)\<close>; \<open>None\<close> when the constructor throws.\<close>

definition new_EmailScraper :: "url_parser \<Rightarrow> string \<Rightarrow> options \<Rightarrow> scraper option" where
  "new_EmailScraper P inputUrl opts =
     (case toBaseUrl P inputUrl of
        None \<Rightarrow> None
      | Some b \<Rightarrow>
          (case P b None of
             None \<Rightarrow> None
           | Some bu \<Rightarrow>
               seedQueue P
                 \<lparr>baseUrl = b, baseDomain = hostname bu,
                  maxPages = clamp_budget (opt_maxPages opts) 30 500,
                  concurrency = clamp_budget (opt_concurrency opts) 4 20,
                  fast = (case opt_fast opts of None \<Rightarrow> True | Some f \<Rightarrow> f),
                  maxEmails = clamp_budget (opt_maxEmails opts) 2 50,
                  queue = [], qIndex = 0,
                  visitedUrls = {}, enqueuedUrls = {}, emails = {}\<rparr>))"

section \<open>Fetching a page\<close>

text \<open>
  What \<^verbatim>\<open>client.get\<close> can do: fail in the network, or deliver the status and the response
  of the last request. \<open>content_type\<close> and \<open>content_length\<close> are the two headers that
  \<^verbatim>\<open>fetchPage\<close> reads; \<open>content_length\<close> is the number the header declares, and \<open>None\<close>
  when the header is missing or is not a number. The body is a string or something else.
\<close>

datatype net_error = DNS | TLS | ConnectionReset | Timeout

datatype body = Text string | NonText

record response =
  content_type :: "string option"
  content_length :: "nat option"
  data :: body

datatype outcome = NetworkError net_error | Reply nat response

definition validateStatus :: "nat \<Rightarrow> bool" where
  "validateStatus st = (200 \<le> st \<and> st < 400)"

text \<open>The value of \<^verbatim>\<open>ct\<close>: the header in lower case, the empty string without one.\<close>

definition declared_type :: "response \<Rightarrow> string" where
  "declared_type r = toLowerCase (case content_type r of None \<Rightarrow> [] | Some c \<Rightarrow> c)"



text \<open>\<^verbatim>\<open>fetchPage\<close>: a rejected request (a network error, or a status that
  \<^verbatim>\<open>validateStatus\<close> refuses) throws inside the \<^verbatim>\<open>try\<close> and is caught.\<close>

definition fetchPage :: "outcome \<Rightarrow> string option" where
  "fetchPage res =
     (case res of
        NetworkError e \<Rightarrow> None
      | Reply st r \<Rightarrow>
          if \<not> validateStatus st then None
          else
            (let ct = declared_type r
             in if ct \<noteq> [] \<and> \<not> includes_str ct ''text/html'' \<and>
                   \<not> includes_str ct ''application/xhtml''
                then None
                else
                  (let len = (case content_length r of None \<Rightarrow> 0 | Some n \<Rightarrow> n)
                   in if len \<noteq> 0 \<and> 2500000 < len then None
                      else (case data r of NonText \<Rightarrow> None | Text d \<Rightarrow> Some d))))"

section \<open>Parsing a page\<close>

text \<open>
  What the four queries of \<^verbatim>\<open>parsePage\<close> find in the document: the \<^verbatim>\<open>href\<close> of every
  \<^verbatim>\<open>mailto:\<close> anchor, the \<^verbatim>\<open>content\<close> of every meta tag, the text nodes of the body and
  the \<^verbatim>\<open>href\<close> of every anchor. The parameter \<open>M\<close> is \<^verbatim>\<open>match(this.emailRegex)\<close>, with
  the empty list for no match.
\<close>

record page =
  mailto_hrefs :: "string list"
  meta_contents :: "string list"
  text_parts :: "string list"
  link_hrefs :: "string list"

type_synonym matcher = "string \<Rightarrow> string list"

definition mailto_address :: "string \<Rightarrow> string" where
  "mailto_address href =
     (let h = trim href;
          m = (if startsWith (toLowerCase h) ''mailto:'' then drop 7 h else h)
      in trim (takeWhile (\<lambda>c. c \<noteq> CHR ''?'') m))"

definition store_mailto :: "scraper \<Rightarrow> string \<Rightarrow> scraper" where
  "store_mailto s href =
     (let mail = mailto_address href in if mail \<noteq> [] then storeEmail s mail else s)"

definition store_meta :: "matcher \<Rightarrow> scraper \<Rightarrow> string \<Rightarrow> scraper" where
  "store_meta M s content0 =
     (let content = trim content0
      in if content = [] then s else foldl storeEmail s (M content))"

text \<open>The loop over the text nodes, which leaves at the first node after which the stop
  condition holds.\<close>

fun scan_text :: "matcher \<Rightarrow> scraper \<Rightarrow> string list \<Rightarrow> scraper" where
  "scan_text M s [] = s"
| "scan_text M s (part # rest) =
     (let s' = foldl storeEmail s (M part)
      in if shouldStop s' then s' else scan_text M s' rest)"

text \<open>The test \<^verbatim>\<open>/^(javascript:|tel:|mailto:)/i\<close>.\<close>

definition is_skipped_link :: "string \<Rightarrow> bool" where
  "is_skipped_link href =
     (startsWith (toLowerCase href) ''javascript:'' \<or>
      startsWith (toLowerCase href) ''tel:'' \<or>
      startsWith (toLowerCase href) ''mailto:'')"

definition enqueue_link :: "url_parser \<Rightarrow> scraper \<Rightarrow> string \<Rightarrow> scraper" where
  "enqueue_link P s href =
     (if href = [] then s else if is_skipped_link href then s else enqueue P s href)"

definition parsePage :: "url_parser \<Rightarrow> matcher \<Rightarrow> scraper \<Rightarrow> page \<Rightarrow> scraper" where
  "parsePage P M s pg =
     (let s1 = foldl store_mailto s (mailto_hrefs pg)
      in if shouldStop s1 then s1
         else
           (let s2 = foldl (store_meta M) s1 (meta_contents pg)
            in if shouldStop s2 then s2
               else
                 (let s3 = scan_text M s2 (text_parts pg)
                  in if shouldStop s3 then s3
                     else foldl (enqueue_link P) s3 (link_hrefs pg))))"

section \<open>The worker pool\<close>

text \<open>
  A worker is suspended at one of its two \<^verbatim>\<open>await\<close>s, or is about to run the head of its
  loop, or has returned. Between two suspensions it runs alone, so a crawl is a sequence
  of steps, each the run of one worker from one suspension to the next:
  \<^item> \<open>Claim i url\<close>: worker \<open>i\<close> finds the stop condition false, takes \<open>url\<close> from
    \<^verbatim>\<open>getNextUrl\<close>, adds it to the visited set and starts the fetch;
  \<^item> \<open>Exit i\<close>: worker \<open>i\<close> finds the stop condition true or the queue exhausted, and
    returns;
  \<^item> \<open>Fetched i res pg\<close>: the fetch of worker \<open>i\<close> ends with \<open>res\<close>; if \<^verbatim>\<open>fetchPage\<close>
    gives a non-empty string, the worker parses it, \<open>pg\<close> being what the queries find
    in it; then it starts its delay;
  \<^item> \<open>Wake i\<close>: the delay of worker \<open>i\<close> ends.
  An event that the state does not allow has no successor.
\<close>

datatype wstate = Ready | Fetching string | Sleeping | Done

record crawl =
  scr :: scraper
  workers :: "wstate list"

datatype event = Claim nat string | Exit nat | Fetched nat outcome page | Wake nat

definition step :: "url_parser \<Rightarrow> matcher \<Rightarrow> event \<Rightarrow> crawl \<Rightarrow> crawl option" where
  "step P M ev c =
     (let s = scr c; ws = workers c
      in case ev of
           Claim i url \<Rightarrow>
             if i < length ws \<and> ws ! i = Ready \<and> \<not> shouldStop s \<and>
                fst (getNextUrl s) = Some url
             then Some \<lparr>scr = (snd (getNextUrl s))
                                \<lparr>visitedUrls := insert url (visitedUrls (snd (getNextUrl s)))\<rparr>,
                        workers = ws[i := Fetching url]\<rparr>
             else None
         | Exit i \<Rightarrow>
             if i < length ws \<and> ws ! i = Ready \<and>
                (shouldStop s \<or> fst (getNextUrl s) = None)
             then Some \<lparr>scr = (if shouldStop s then s else snd (getNextUrl s)),
                        workers = ws[i := Done]\<rparr>
             else None
         | Fetched i res pg \<Rightarrow>
             if i < length ws
             then (case ws ! i of
                     Fetching url \<Rightarrow>
                       Some \<lparr>scr = (case fetchPage res of
                                      None \<Rightarrow> s
                                    | Some html \<Rightarrow> if html = [] then s else parsePage P M s pg),
                             workers = ws[i := Sleeping]\<rparr>
                   | _ \<Rightarrow> None)
             else None
         | Wake i \<Rightarrow>
             if i < length ws \<and> ws ! i = Sleeping
             then Some \<lparr>scr = s, workers = ws[i := Ready]\<rparr>
             else None)"

fun run :: "url_parser \<Rightarrow> matcher \<Rightarrow> event list \<Rightarrow> crawl \<Rightarrow> crawl option" where
  "run P M [] c = Some c"
| "run P M (ev # evs) c =
     (case step P M ev c of None \<Rightarrow> None | Some c' \<Rightarrow> run P M evs c')"

text \<open>\<^verbatim>\<open>scrapeWebsite\<close> starts one worker for each index of
  \<^verbatim>\<open>Array.from({ length: this.concurrency })\<close>: the length of an array-like is its
  \<^verbatim>\<open>length\<close> with the fraction cut off.\<close>

definition start :: "scraper \<Rightarrow> crawl" where
  "start s = \<lparr>scr = s, workers = replicate (nat \<lfloor>concurrency s\<rfloor>) Ready\<rparr>"

text \<open>The URLs whose fetch a run starts, in order.\<close>

fun claimed :: "event list \<Rightarrow> string list" where
  "claimed [] = []"
| "claimed (Claim i url # evs) = url # claimed evs"
| "claimed (ev # evs) = claimed evs"

section \<open>Notions for the properties\<close>

text \<open>The frontier states of a crawl: the fresh state of the constructor, and every
  state that the operations on the scraper lead to from there.\<close>

inductive reachable :: "url_parser \<Rightarrow> scraper \<Rightarrow> bool" for P :: url_parser where
  fresh: "queue s = [] \<Longrightarrow> enqueuedUrls s = {} \<Longrightarrow> visitedUrls s = {} \<Longrightarrow> reachable P s"
| enqueued: "reachable P s \<Longrightarrow> reachable P (enqueue P s link)"
| advanced: "reachable P s \<Longrightarrow> reachable P (snd (getNextUrl s))"
| visited: "reachable P s \<Longrightarrow> reachable P (s\<lparr>visitedUrls := insert url (visitedUrls s)\<rparr>)"
| stored: "reachable P s \<Longrightarrow> reachable P (storeEmail s candidate)"

text \<open>The fields that parsing a page leaves alone.\<close>

definition frame :: "scraper \<Rightarrow> scraper \<Rightarrow> bool" where
  "frame s s' =
     (visitedUrls s' = visitedUrls s \<and> maxPages s' = maxPages s \<and>
      maxEmails s' = maxEmails s \<and> concurrency s' = concurrency s)"

text \<open>A step from \<open>s\<close> to \<open>s'\<close> that adds at most \<open>n\<close> emails.\<close>

definition grows :: "nat \<Rightarrow> scraper \<Rightarrow> scraper \<Rightarrow> bool" where
  "grows n s s' =
     (frame s s' \<and>
      (finite (emails s) \<longrightarrow> finite (emails s') \<and> card (emails s') \<le> card (emails s) + n))"

text \<open>
  The candidates that a page offers between two tests of the stop condition: its
  \<^verbatim>\<open>mailto:\<close> links, the matches in all its meta tags, the matches in one text node.
  \<open>page_within M K pg\<close> says that each of these groups has at most \<open>K\<close> members.
\<close>

definition page_within :: "matcher \<Rightarrow> nat \<Rightarrow> page \<Rightarrow> bool" where
  "page_within M K pg =
     (length (mailto_hrefs pg) \<le> K \<and>
      sum_list (map (\<lambda>c. length (M (trim c))) (meta_contents pg)) \<le> K \<and>
      list_all (\<lambda>part. length (M part) \<le> K) (text_parts pg))"

fun events_within :: "matcher \<Rightarrow> nat \<Rightarrow> event list \<Rightarrow> bool" where
  "events_within M K [] = True"
| "events_within M K (Fetched i res pg # evs) = (page_within M K pg \<and> events_within M K evs)"
| "events_within M K (ev # evs) = events_within M K evs"

text \<open>The URLs whose fetch is in progress.\<close>

fun in_flight :: "wstate list \<Rightarrow> string list" where
  "in_flight [] = []"
| "in_flight (Fetching url # ws) = url # in_flight ws"
| "in_flight (w # ws) = in_flight ws"

text \<open>The invariant of the frontier: the pending sequence has no duplicates, it holds
  exactly the URLs marked as enqueued, and each of them is on the base domain.\<close>

definition frontier_inv :: "url_parser \<Rightarrow> scraper \<Rightarrow> bool" where
  "frontier_inv P s =
     (distinct (queue s) \<and> set (queue s) = enqueuedUrls s \<and>
      (\<forall>n \<in> set (queue s). isSameDomain P s n))"

text \<open>The invariants of a crawl: the page budget, the email budget with the fetches in
  flight counted at \<open>K\<close> emails each, and the fetches in flight being distinct visited
  URLs. A count reaches a budget when it reaches the budget rounded up.\<close>

definition pages_inv :: "crawl \<Rightarrow> bool" where
  "pages_inv c =
     (finite (visitedUrls (scr c)) \<and>
      card (visitedUrls (scr c)) \<le> nat \<lceil>maxPages (scr c)\<rceil>)"

definition emails_inv :: "nat \<Rightarrow> crawl \<Rightarrow> bool" where
  "emails_inv K c =
     (finite (emails (scr c)) \<and>
      card (emails (scr c)) + K * length (in_flight (workers c))
        \<le> nat \<lceil>maxEmails (scr c)\<rceil> - 1 + K * length (workers c))"

definition flight_inv :: "crawl \<Rightarrow> bool" where
  "flight_inv c =
     (distinct (in_flight (workers c)) \<and> set (in_flight (workers c)) \<subseteq> visitedUrls (scr c))"

section \<open>Example crawls\<close>

text \<open>
  A crawl of \<^verbatim>\<open>example.com\<close> in fast mode with two workers: the scraper that the
  constructor builds, two pages, and a schedule in which both workers fetch at once.
  The contact page arrives first and fills the email budget of 2; the home page, whose
  fetch was in flight, still adds its address.
\<close>

definition example_options :: options where
  "example_options =
     \<lparr>opt_maxPages = Some 3, opt_concurrency = Some 2, opt_fast = None, opt_maxEmails = None\<rparr>"

definition example_scraper :: scraper where
  "example_scraper =
     \<lparr>baseUrl = ''https://example.com/'', baseDomain = ''example.com'',
      maxPages = 3, concurrency = 2, fast = True, maxEmails = 2,
      queue = [''https://example.com/'', ''https://example.com/contact'',
               ''https://example.com/contact-us'', ''https://example.com/about'',
               ''https://example.com/about-us'', ''https://example.com/support'',
               ''https://example.com/help'', ''https://example.com/privacy'',
               ''https://example.com/terms'', ''https://example.com/impressum''],
      qIndex = 0, visitedUrls = {},
      enqueuedUrls = {''https://example.com/'', ''https://example.com/contact'',
               ''https://example.com/contact-us'', ''https://example.com/about'',
               ''https://example.com/about-us'', ''https://example.com/support'',
               ''https://example.com/help'', ''https://example.com/privacy'',
               ''https://example.com/terms'', ''https://example.com/impressum''},
      emails = {}\<rparr>"

definition html_reply :: outcome where
  "html_reply =
     Reply 200 \<lparr>content_type = Some ''text/html; charset=utf-8'', content_length = None,
                data = Text ''<html>''\<rparr>"

definition home_page :: page where
  "home_page =
     \<lparr>mailto_hrefs = [''mailto:owner@example.com''], meta_contents = [], text_parts = [],
      link_hrefs = [''/about/'', ''https://other.org/'', ''/shop?page=2'']\<rparr>"

definition contact_page :: page where
  "contact_page =
     \<lparr>mailto_hrefs = [''mailto:sales@example.com?subject=Hello'', ''mailto:info@example.com''],
      meta_contents = [], text_parts = [], link_hrefs = [''/'']\<rparr>"

text \<open>A matcher that finds nothing: the example pages carry their addresses in
  \<^verbatim>\<open>mailto:\<close> links.\<close>

definition no_match :: matcher where
  "no_match part = []"

definition example_events :: "event list" where
  "example_events =
     [Claim 0 ''https://example.com/'', Claim 1 ''https://example.com/contact'',
      Fetched 1 html_reply contact_page, Fetched 0 html_reply home_page,
      Wake 0, Exit 0, Wake 1, Exit 1]"

definition example_final :: crawl where
  "example_final =
     \<lparr>scr = example_scraper
         \<lparr>qIndex := 2,
          visitedUrls := {''https://example.com/'', ''https://example.com/contact''},
          emails := {''owner@example.com'', ''info@example.com'', ''sales@example.com''}\<rparr>,
      workers = [Done, Done]\<rparr>"

text \<open>A crawl with one worker, one seed and an email budget of 1, whose only page has four
  \<^verbatim>\<open>mailto:\<close> links.\<close>

definition staff_page :: page where
  "staff_page =
     \<lparr>mailto_hrefs = [''mailto:ann@example.com'', ''mailto:bob@example.com'',
                      ''mailto:cid@example.com'', ''mailto:dee@example.com''],
      meta_contents = [], text_parts = [], link_hrefs = []\<rparr>"

definition solo_options :: options where
  "solo_options =
     \<lparr>opt_maxPages = None, opt_concurrency = Some 1, opt_fast = Some False,
      opt_maxEmails = Some 1\<rparr>"

definition solo_scraper :: scraper where
  "solo_scraper =
     \<lparr>baseUrl = ''https://example.com/'', baseDomain = ''example.com'',
      maxPages = 30, concurrency = 1, fast = False, maxEmails = 1,
      queue = [''https://example.com/''], qIndex = 0, visitedUrls = {},
      enqueuedUrls = {''https://example.com/''}, emails = {}\<rparr>"

definition solo_events :: "event list" where
  "solo_events =
     [Claim 0 ''https://example.com/'', Fetched 0 html_reply staff_page, Wake 0, Exit 0]"

definition solo_final :: crawl where
  "solo_final =
     \<lparr>scr = solo_scraper
         \<lparr>qIndex := 1, visitedUrls := {''https://example.com/''},
          emails := {''ann@example.com'', ''bob@example.com'', ''cid@example.com'',
                     ''dee@example.com''}\<rparr>,
      workers = [Done]\<rparr>"

text \<open>A crawl with fractional options: the three numeric options are 1.5. One worker
  is started; it visits the home page and the contact page, each with one
  \<^verbatim>\<open>mailto:\<close> link.\<close>

definition fraction_options :: options where
  "fraction_options =
     \<lparr>opt_maxPages = Some (3 / 2), opt_concurrency = Some (3 / 2), opt_fast = None,
      opt_maxEmails = Some (3 / 2)\<rparr>"

definition fraction_scraper :: scraper where
  "fraction_scraper =
     example_scraper\<lparr>maxPages := 3 / 2, concurrency := 3 / 2, maxEmails := 3 / 2\<rparr>"

definition office_page :: page where
  "office_page =
     \<lparr>mailto_hrefs = [''mailto:info@example.com''], meta_contents = [], text_parts = [],
      link_hrefs = []\<rparr>"

definition fraction_events :: "event list" where
  "fraction_events =
     [Claim 0 ''https://example.com/'', Fetched 0 html_reply home_page, Wake 0,
      Claim 0 ''https://example.com/contact'', Fetched 0 html_reply office_page, Wake 0,
      Exit 0]"

definition fraction_final :: crawl where
  "fraction_final =
     \<lparr>scr = fraction_scraper
         \<lparr>queue := queue fraction_scraper @ [''https://example.com/shop?page=2''],
          qIndex := 2,
          visitedUrls := {''https://example.com/'', ''https://example.com/contact''},
          enqueuedUrls := insert ''https://example.com/shop?page=2'' (enqueuedUrls fraction_scraper),
          emails := {''owner@example.com'', ''info@example.com''}\<rparr>,
      workers = [Done]\<rparr>"





section \<open>Canonical URLs\<close>

subsection \<open>Serialization and the normalized fields\<close>

lemma toString_nonempty: "toString u \<noteq> []"
  by (simp add: toString_def protocol_def)

lemma toLowerCase_idem: "toLowerCase (toLowerCase h) = toLowerCase h"
proof -
  have "lower_char (lower_char c) = lower_char c" for c
    by (simp add: lower_char_def upper_letters_def lower_letters_def)
  then show ?thesis by (simp add: toLowerCase_def)
qed

lemmas nf_defs = normalize_fields_def Let_def clear_hash_def set_hostname_def clear_port_def
      set_pathname_def protocol_def port_def pathname_def hostname_def

lemma nf_scheme [simp]: "url_scheme (normalize_fields u) = url_scheme u"
  by (simp add: nf_defs)
lemma nf_username [simp]: "url_username (normalize_fields u) = url_username u"
  by (simp add: nf_defs)
lemma nf_password [simp]: "url_password (normalize_fields u) = url_password u"
  by (simp add: nf_defs)
lemma nf_opaque [simp]: "url_opaque (normalize_fields u) = url_opaque u"
  by (simp add: nf_defs)
lemma nf_query [simp]: "url_query (normalize_fields u) = url_query u"
  by (simp add: nf_defs)
lemma nf_fragment [simp]: "url_fragment (normalize_fields u) = None"
  by (simp add: nf_defs)
lemma nf_more [simp]: "url.more (normalize_fields u) = url.more u"
  by (simp add: nf_defs)
lemma nf_host:
  "url_host (normalize_fields u) =
     (if url_opaque u then url_host u else Some (toLowerCase (hostname u)))"
  by (simp add: nf_defs)
lemma nf_port:
  "url_port (normalize_fields u) =
     (if (url_scheme u = ''http'' \<and> url_port u = Some ''80'') \<or>
         (url_scheme u = ''https'' \<and> url_port u = Some ''443'')
      then None else url_port u)"
  by (auto simp: nf_defs split: option.splits)
lemma nf_path:
  "url_path (normalize_fields u) =
     (if \<not> url_opaque u \<and> length (url_path u) > 1 \<and> endsWith (url_path u) ''/''
      then butlast (url_path u) else url_path u)"
  by (auto simp: nf_defs)

lemma normalize_fields_query:
  "normalize_fields (u\<lparr>url_query := q\<rparr>) = (normalize_fields u)\<lparr>url_query := q\<rparr>"
  by (rule url.equality) (simp_all add: nf_host nf_port nf_path hostname_def)

lemma toString_query:
  "toString (u\<lparr>url_query := q\<rparr>) = toString (u\<lparr>url_query := q'\<rparr>) \<Longrightarrow> url_fragment u = None \<Longrightarrow> q = q'"
  by (auto simp: toString_def protocol_def host_port_def hostname_def split: option.splits)

lemma normalize_fields_idem:
  assumes "url_opaque u \<or> length (pathname (normalize_fields u)) \<le> 1 \<or>
           \<not> endsWith (pathname (normalize_fields u)) ''/''"
  shows "normalize_fields (normalize_fields u) = normalize_fields u"
proof (rule url.equality)
  show "url_host (normalize_fields (normalize_fields u)) = url_host (normalize_fields u)"
    by (simp add: nf_host hostname_def toLowerCase_idem)
  show "url_port (normalize_fields (normalize_fields u)) = url_port (normalize_fields u)"
    by (simp add: nf_port)
  show "url_path (normalize_fields (normalize_fields u)) = url_path (normalize_fields u)"
    using assms unfolding nf_path[of "normalize_fields u"] pathname_def by auto
qed simp_all

subsection \<open>The base origin\<close>

lemma trim_Nil [simp]: "trim [] = []" by (simp add: trim_def)

lemma dropWhile_rev_trim: "dropWhile is_space (rev (trim x)) = rev (trim x)"
  unfolding trim_def rev_rev_ident
  by (metis dropWhile_idem)

lemma trim_https: "trim (''https://'' @ trim x) = ''https://'' @ trim x"
proof -
  have a: "dropWhile is_space (''https://'' @ trim x) = ''https://'' @ trim x"
    by (simp add: is_space_def)
  have b: "dropWhile is_space (rev (''https://'' @ trim x)) = rev (''https://'' @ trim x)"
  proof (cases "trim x = []")
    case True then show ?thesis by (simp add: is_space_def)
  next
    case False
    then have "rev (trim x) \<noteq> []" by simp
    then obtain c cs where cc: "rev (trim x) = c # cs" by (cases "rev (trim x)") auto
    have e: "dropWhile is_space (rev (trim x)) = c # cs"
      using dropWhile_rev_trim[of x] by (simp only: cc)
    have "\<not> is_space c"
      using hd_dropWhile[of is_space "rev (trim x)"] unfolding e by simp
    with cc show ?thesis by simp
  qed
  show ?thesis unfolding trim_def[of "''https://'' @ trim x"] a b by simp
qed

lemma has_prefix_https: "has_http_prefix (''https://'' @ y)"
  by (simp add: has_http_prefix_def toLowerCase_def lower_char_def upper_letters_def lower_letters_def)

lemma toBaseUrl_assume_https:
  "input \<noteq> [] \<Longrightarrow> \<not> has_http_prefix (trim input) \<Longrightarrow>
   toBaseUrl P input = toBaseUrl P (''https://'' @ trim input)"
  unfolding toBaseUrl_def[of P input] toBaseUrl_def[of P "''https://'' @ trim input"]
  by (simp add: trim_https has_prefix_https Let_def del: append.simps)

lemma origin_http:
  "url_scheme u = ''http'' \<or> url_scheme u = ''https'' \<Longrightarrow>
   origin u = url_scheme u @ ''://'' @ hostname u @
              (case url_port u of None \<Rightarrow> [] | Some p \<Rightarrow> '':'' @ p)"
  by (auto simp: origin_def protocol_def host_port_def)

lemma toBaseUrl_Some:
  assumes "toBaseUrl P input = Some r"
  shows "\<exists>u raw. (raw = trim input \<or> raw = ''https://'' @ trim input) \<and>
           P raw None = Some u \<and> (url_scheme u = ''http'' \<or> url_scheme u = ''https'') \<and>
           r = url_scheme u @ ''://'' @ hostname u @
               (case url_port u of None \<Rightarrow> [] | Some p \<Rightarrow> '':'' @ p) @ ''/''"
proof -
  define raw where "raw = (if \<not> has_http_prefix (trim input) then ''https://'' @ trim input else trim input)"
  from assms obtain u where u: "P raw None = Some u"
    and pr: "\<not> (protocol u \<noteq> ''http:'' \<and> protocol u \<noteq> ''https:'')"
    and r: "r = origin u @ ''/''"
    by (auto simp: toBaseUrl_def Let_def raw_def split: if_splits option.splits)
  from pr have sc: "url_scheme u = ''http'' \<or> url_scheme u = ''https''"
    by (auto simp: protocol_def)
  have "raw = trim input \<or> raw = ''https://'' @ trim input" by (simp add: raw_def)
  with u sc r show ?thesis by (auto simp: origin_http simp del: append.simps)
qed

text \<open>
  C9. \<^verbatim>\<open>toBaseUrl\<close> fails, or it returns the origin of the URL it parsed followed by a
  slash: \<^verbatim>\<open>http\<close> or \<^verbatim>\<open>https\<close>, \<^verbatim>\<open>://\<close>, the host name, the port after a colon when
  there is one, and \<^verbatim>\<open>/\<close>. An input that does not start with \<^verbatim>\<open>http://\<close> or
  \<^verbatim>\<open>https://\<close> is parsed with \<^verbatim>\<open>https://\<close> put in front of it, so it gives what the
  same input with that prefix gives.
\<close>

theorem toBaseUrl_origin:
  "(toBaseUrl P input = None \<or>
    (\<exists>u raw. (raw = trim input \<or> raw = ''https://'' @ trim input) \<and>
        P raw None = Some u \<and> (url_scheme u = ''http'' \<or> url_scheme u = ''https'') \<and>
        toBaseUrl P input =
          Some (url_scheme u @ ''://'' @ hostname u @
                (case url_port u of None \<Rightarrow> [] | Some p \<Rightarrow> '':'' @ p) @ ''/''))) \<and>
   (input \<noteq> [] \<and> \<not> has_http_prefix (trim input) \<longrightarrow>
      toBaseUrl P input = toBaseUrl P (''https://'' @ trim input))"
proof (intro conjI impI)
  show "toBaseUrl P input = None \<or>
    (\<exists>u raw. (raw = trim input \<or> raw = ''https://'' @ trim input) \<and>
        P raw None = Some u \<and> (url_scheme u = ''http'' \<or> url_scheme u = ''https'') \<and>
        toBaseUrl P input =
          Some (url_scheme u @ ''://'' @ hostname u @
                (case url_port u of None \<Rightarrow> [] | Some p \<Rightarrow> '':'' @ p) @ ''/''))"
  proof (cases "toBaseUrl P input")
    case None then show ?thesis by simp
  next
    case (Some r)
    from toBaseUrl_Some[OF Some] Some show ?thesis by simp
  qed
next
  assume "input \<noteq> [] \<and> \<not> has_http_prefix (trim input)"
  then show "toBaseUrl P input = toBaseUrl P (''https://'' @ trim input)"
    by (simp add: toBaseUrl_assume_https)
qed

theorem toBaseUrl_origin_witness:
  "''mysite.com/page?x=1'' \<noteq> [] \<and> \<not> has_http_prefix (trim ''mysite.com/page?x=1'') \<and>
   toBaseUrl parseURL (''https://'' @ trim ''mysite.com/page?x=1'') = Some ''https://mysite.com/'' \<and>
   toBaseUrl parseURL ''mysite.com/page?x=1'' = Some ''https://mysite.com/''"
proof -
  have h: "''mysite.com/page?x=1'' \<noteq> [] \<and> \<not> has_http_prefix (trim ''mysite.com/page?x=1'')"
    by code_simp
  have e: "toBaseUrl parseURL (''https://'' @ trim ''mysite.com/page?x=1'') = Some ''https://mysite.com/''"
    by code_simp
  from toBaseUrl_origin[of parseURL "''mysite.com/page?x=1''"] h
  have "toBaseUrl parseURL ''mysite.com/page?x=1'' =
        toBaseUrl parseURL (''https://'' @ trim ''mysite.com/page?x=1'')"
    by blast
  with h e show ?thesis by simp
qed

subsection \<open>Normalizing twice\<close>

text \<open>
  C5. \<^verbatim>\<open>normalizeUrl\<close> removes one trailing slash at each call. If the parser reads the
  normalized string back as the normalized URL, and the normalized path is \<^verbatim>\<open>/\<close> or does
  not end in a slash (or the path is opaque), then normalizing the result again returns
  it unchanged.
\<close>

theorem normalizeUrl_idempotent:
  assumes "new_URL P a b = Some u"
    and "new_URL P (toString (normalize_fields u)) b' = Some (normalize_fields u)"
    and "url_opaque u \<or> length (pathname (normalize_fields u)) \<le> 1 \<or>
         \<not> endsWith (pathname (normalize_fields u)) ''/''"
  shows "\<exists>n. normalizeUrl P a b = Some n \<and> normalizeUrl P n b' = Some n"
  using assms by (simp add: normalizeUrl_def normalize_fields_idem)

theorem normalizeUrl_idempotent_witness:
  "new_URL parseURL ''HTTPS://Example.com:443/About/#team'' None =
     Some \<lparr>url_scheme = ''https'', url_username = [], url_password = [],
           url_host = Some ''example.com'', url_port = None, url_path = ''/About/'',
           url_opaque = False, url_query = None, url_fragment = Some ''team''\<rparr> \<and>
   normalizeUrl parseURL ''HTTPS://Example.com:443/About/#team'' None =
     Some ''https://example.com/About'' \<and>
   normalizeUrl parseURL ''https://example.com/About'' None = Some ''https://example.com/About''"
proof -
  define u where "u = \<lparr>url_scheme = ''https'', url_username = [], url_password = [],
           url_host = Some ''example.com'', url_port = None, url_path = ''/About/'',
           url_opaque = False, url_query = None, url_fragment = Some ''team''\<rparr>"
  have p: "new_URL parseURL ''HTTPS://Example.com:443/About/#team'' None = Some u"
    unfolding u_def by code_simp
  have r: "new_URL parseURL (toString (normalize_fields u)) None = Some (normalize_fields u)"
    unfolding u_def by code_simp
  have s: "url_opaque u \<or> length (pathname (normalize_fields u)) \<le> 1 \<or>
         \<not> endsWith (pathname (normalize_fields u)) ''/''"
    unfolding u_def by code_simp
  have v: "normalizeUrl parseURL ''HTTPS://Example.com:443/About/#team'' None =
     Some ''https://example.com/About''"
    by code_simp
  from normalizeUrl_idempotent[OF p r s] v
  have "normalizeUrl parseURL ''https://example.com/About'' None = Some ''https://example.com/About''"
    by auto
  with p v show ?thesis unfolding u_def by simp
qed

text \<open>A path that ends in two slashes loses one at the first call and the other at the
  second, so the second call changes the result of the first.\<close>

theorem normalizeUrl_not_idempotent:
  "normalizeUrl parseURL ''https://example.com/a//'' None = Some ''https://example.com/a/'' \<and>
   normalizeUrl parseURL ''https://example.com/a/'' None = Some ''https://example.com/a'' \<and>
   normalizeUrl parseURL ''https://example.com/a/'' None \<noteq> Some ''https://example.com/a/''"
  by (intro conjI; code_simp)

section \<open>The cleaning pipeline on the documented examples\<close>

text \<open>
  C6. \<^verbatim>\<open>cleanEmail\<close> removes a glued \<^verbatim>\<open>Email:\<close> label, a leading \<^verbatim>\<open>%20\<close> and a leading
  \<^verbatim>\<open>20%\<close>, each time returning \<^verbatim>\<open>info@example.com\<close>; it rejects \<^verbatim>\<open>x@site..com\<close> for
  the doubled dot and \<^verbatim>\<open>a@b.c1\<close> because the top-level domain \<^verbatim>\<open>c1\<close> is not made of
  letters only (with the letters \<^verbatim>\<open>cc\<close> in its place the address is accepted).
\<close>

theorem cleanEmail_examples:
  "cleanEmail ''Email:info@example.com'' = Some ''info@example.com'' \<and>
   cleanEmail ''%20info@example.com'' = Some ''info@example.com'' \<and>
   cleanEmail ''20%info@example.com'' = Some ''info@example.com'' \<and>
   cleanEmail ''x@site..com'' = None \<and>
   cleanEmail ''a@b.c1'' = None \<and> \<not> isValidTld ''c1'' \<and> cleanEmail ''a@b.cc'' = Some ''a@b.cc''"
  by (intro conjI; code_simp)

text \<open>
  C7. On a local part that starts with two encoded spaces, \<^verbatim>\<open>cleanEmail\<close> removes the
  first \<^verbatim>\<open>%20\<close> only: the second one stays in the address it returns. The run of codes
  that FIX 1 removes is a run after a single percent sign, as in \<^verbatim>\<open>%2009\<close>.
\<close>

theorem cleanEmail_repeated_code:
  "cleanEmail ''%20%20info@example.com'' = Some ''%20info@example.com'' \<and>
   cleanEmail ''%2009info@example.com'' = Some ''info@example.com''"
  by (intro conjI; code_simp)

section \<open>Fetching\<close>

subsection \<open>Substrings\<close>





subsection \<open>What \<^verbatim>\<open>fetchPage\<close> returns\<close>






section \<open>The frontier\<close>

lemma enqueue_cases:
  "enqueue P s link = s \<or>
   (\<exists>n. normalizeUrl P link (Some (baseUrl s)) = Some n \<and> n \<noteq> [] \<and> isSameDomain P s n \<and>
        n \<notin> visitedUrls s \<and> n \<notin> enqueuedUrls s \<and>
        enqueue P s link = s\<lparr>enqueuedUrls := insert n (enqueuedUrls s), queue := queue s @ [n]\<rparr>)"
  by (auto simp: enqueue_def split: option.splits)

lemma getNextUrl_snd: "\<exists>k. snd (getNextUrl s) = s\<lparr>qIndex := k\<rparr>"
proof (induction s rule: getNextUrl.induct)
  case (1 s)
  show ?case
  proof (cases "qIndex s < length (queue s)")
    case False
    then have "snd (getNextUrl s) = s\<lparr>qIndex := qIndex s\<rparr>"
      by (simp add: getNextUrl.simps[of s])
    then show ?thesis by blast
  next
    case True
    show ?thesis
    proof (cases "queue s ! qIndex s = [] \<or> queue s ! qIndex s \<in> visitedUrls s")
      case False
      with True show ?thesis by (auto simp: getNextUrl.simps[of s])
    next
      case skip: True
      have e: "getNextUrl s = getNextUrl (s\<lparr>qIndex := qIndex s + 1\<rparr>)"
        using True skip by (auto simp: getNextUrl.simps[of s])
      from skip True "1.IH" obtain k where
        "snd (getNextUrl (s\<lparr>qIndex := qIndex s + 1\<rparr>)) = s\<lparr>qIndex := qIndex s + 1\<rparr>\<lparr>qIndex := k\<rparr>"
        by blast
      with e show ?thesis by auto
    qed
  qed
qed

lemma getNextUrl_fresh:
  "fst (getNextUrl s) = Some url \<Longrightarrow> url \<notin> visitedUrls s \<and> url \<in> set (queue s) \<and> url \<noteq> []"
proof (induction s rule: getNextUrl.induct)
  case (1 s)
  show ?case
  proof (cases "qIndex s < length (queue s)")
    case False
    with "1.prems" show ?thesis by (simp add: getNextUrl.simps[of s])
  next
    case True
    show ?thesis
    proof (cases "queue s ! qIndex s = [] \<or> queue s ! qIndex s \<in> visitedUrls s")
      case False
      with True "1.prems" show ?thesis by (auto simp: getNextUrl.simps[of s])
    next
      case skip: True
      have e: "getNextUrl s = getNextUrl (s\<lparr>qIndex := qIndex s + 1\<rparr>)"
        using True skip by (auto simp: getNextUrl.simps[of s])
      with "1.prems" have "fst (getNextUrl (s\<lparr>qIndex := qIndex s + 1\<rparr>)) = Some url" by simp
      with skip True "1.IH" show ?thesis by auto
    qed
  qed
qed

lemma isSameDomain_cong:
  "baseDomain s' = baseDomain s \<Longrightarrow> isSameDomain P s' n = isSameDomain P s n"
  by (simp add: isSameDomain_def split: option.splits)

lemma enqueue_fields [simp]:
  "baseDomain (enqueue P s link) = baseDomain s"
  "baseUrl (enqueue P s link) = baseUrl s"
  "visitedUrls (enqueue P s link) = visitedUrls s"
  "emails (enqueue P s link) = emails s"
  "maxPages (enqueue P s link) = maxPages s"
  "maxEmails (enqueue P s link) = maxEmails s"
  "concurrency (enqueue P s link) = concurrency s"
  "qIndex (enqueue P s link) = qIndex s"
  "fast (enqueue P s link) = fast s"
  using enqueue_cases[of P s link] by auto

lemma frontier_inv_enqueue:
  assumes "frontier_inv P s"
  shows "frontier_inv P (enqueue P s link)"
proof -
  have sd: "isSameDomain P (enqueue P s link) n = isSameDomain P s n" for n
    by (rule isSameDomain_cong) simp
  from enqueue_cases[of P s link] assms show ?thesis
    unfolding frontier_inv_def sd by auto
qed

lemma reachable_inv: "reachable P s \<Longrightarrow> frontier_inv P s"
proof (induction rule: reachable.induct)
  case (fresh s) then show ?case by (simp add: frontier_inv_def)
next
  case (enqueued s link)
  from enqueued.IH show ?case by (rule frontier_inv_enqueue)
next
  case (advanced s)
  obtain k where "snd (getNextUrl s) = s\<lparr>qIndex := k\<rparr>" using getNextUrl_snd by blast
  with advanced.IH show ?case
    by (simp add: frontier_inv_def isSameDomain_cong[of "s\<lparr>qIndex := k\<rparr>" s])
next
  case (visited s url)
  from visited.IH show ?case
    by (simp add: frontier_inv_def
        isSameDomain_cong[of "s\<lparr>visitedUrls := insert url (visitedUrls s)\<rparr>" s])
next
  case (stored s candidate)
  have "isSameDomain P (storeEmail s candidate) n = isSameDomain P s n" for n
    by (rule isSameDomain_cong) (simp add: storeEmail_def split: option.splits)
  with stored.IH show ?case
    by (simp add: frontier_inv_def storeEmail_def split: option.splits)
qed


subsection \<open>The constructed scraper\<close>

lemma seed_pages_fields:
  "seed_pages P s ps = Some s' \<Longrightarrow>
   visitedUrls s' = visitedUrls s \<and> emails s' = emails s \<and> maxPages s' = maxPages s \<and>
   maxEmails s' = maxEmails s \<and> concurrency s' = concurrency s \<and> baseUrl s' = baseUrl s \<and>
   baseDomain s' = baseDomain s"
proof (induction ps arbitrary: s)
  case Nil then show ?case by simp
next
  case (Cons p ps)
  from Cons.prems obtain u where "seed_pages P (enqueue P s (toString u)) ps = Some s'"
    by (auto split: option.splits)
  from Cons.IH[OF this] show ?case by simp
qed

lemma seed_pages_reachable:
  "seed_pages P s ps = Some s' \<Longrightarrow> reachable P s \<Longrightarrow> reachable P s'"
proof (induction ps arbitrary: s)
  case Nil then show ?case by simp
next
  case (Cons p ps)
  from Cons.prems(1) obtain u where e: "seed_pages P (enqueue P s (toString u)) ps = Some s'"
    by (auto split: option.splits)
  from Cons.IH[OF e reachable.enqueued[OF Cons.prems(2)]] show ?case .
qed

lemma seedQueue_fields:
  assumes "seedQueue P s = Some s'"
  shows "visitedUrls s' = visitedUrls s \<and> emails s' = emails s \<and> maxPages s' = maxPages s \<and>
   maxEmails s' = maxEmails s \<and> concurrency s' = concurrency s \<and> baseUrl s' = baseUrl s \<and>
   baseDomain s' = baseDomain s"
proof (cases "fast s")
  case False
  with assms have "s' = enqueue P s (baseUrl s)" by (simp add: seedQueue_def Let_def)
  then show ?thesis by simp
next
  case True
  with assms have "seed_pages P (enqueue P s (baseUrl s)) likelyPages = Some s'"
    by (simp add: seedQueue_def Let_def)
  from seed_pages_fields[OF this] show ?thesis by simp
qed

lemma seedQueue_reachable:
  assumes "seedQueue P s = Some s'" and "reachable P s"
  shows "reachable P s'"
proof (cases "fast s")
  case False
  with assms(1) have "s' = enqueue P s (baseUrl s)" by (simp add: seedQueue_def Let_def)
  with assms(2) show ?thesis by (simp add: reachable.enqueued)
next
  case True
  with assms(1) have "seed_pages P (enqueue P s (baseUrl s)) likelyPages = Some s'"
    by (simp add: seedQueue_def Let_def)
  from seed_pages_reachable[OF this reachable.enqueued[OF assms(2)]] show ?thesis .
qed

lemma clamp_budget_range: "1 \<le> clamp_budget v d hi"
  by (simp add: clamp_budget_def)

lemma new_EmailScraper_base:
  assumes "new_EmailScraper P input opts = Some s"
  shows "\<exists>bu. P (baseUrl s) None = Some bu \<and> baseDomain s = hostname bu \<and>
              toBaseUrl P input = Some (baseUrl s)"
proof -
  from assms obtain b where b: "toBaseUrl P input = Some b"
    by (auto simp: new_EmailScraper_def split: option.splits)
  with assms obtain bu where bu: "P b None = Some bu"
    by (auto simp: new_EmailScraper_def split: option.splits)
  define s0 where "s0 =
       \<lparr>baseUrl = b, baseDomain = hostname bu,
        maxPages = clamp_budget (opt_maxPages opts) 30 500,
        concurrency = clamp_budget (opt_concurrency opts) 4 20,
        fast = (case opt_fast opts of None \<Rightarrow> True | Some f \<Rightarrow> f),
        maxEmails = clamp_budget (opt_maxEmails opts) 2 50,
        queue = [], qIndex = 0,
        visitedUrls = {}, enqueuedUrls = {}, emails = {}\<rparr>"
  from assms b bu have sq: "seedQueue P s0 = Some s"
    by (simp add: new_EmailScraper_def s0_def)
  from seedQueue_fields[OF sq] b bu show ?thesis by (simp add: s0_def)
qed

lemma new_EmailScraper_fresh:
  assumes "new_EmailScraper P input opts = Some s"
  shows "visitedUrls s = {} \<and> emails s = {} \<and> 1 \<le> maxPages s \<and> 1 \<le> maxEmails s \<and>
         1 \<le> concurrency s \<and> reachable P s"
proof -
  from assms obtain b bu s0 where s0: "s0 =
       \<lparr>baseUrl = b, baseDomain = hostname bu,
        maxPages = clamp_budget (opt_maxPages opts) 30 500,
        concurrency = clamp_budget (opt_concurrency opts) 4 20,
        fast = (case opt_fast opts of None \<Rightarrow> True | Some f \<Rightarrow> f),
        maxEmails = clamp_budget (opt_maxEmails opts) 2 50,
        queue = [], qIndex = 0,
        visitedUrls = {}, enqueuedUrls = {}, emails = {}\<rparr>"
    and sq: "seedQueue P s0 = Some s"
    by (auto simp: new_EmailScraper_def split: option.splits)
  have r0: "reachable P s0" by (rule reachable.fresh) (simp_all add: s0)
  from seedQueue_fields[OF sq] seedQueue_reachable[OF sq r0] show ?thesis
    by (simp add: s0 clamp_budget_range)
qed

text \<open>
  C2. In every reachable state of the frontier, a call of \<^verbatim>\<open>enqueue\<close> leaves the pending
  sequence as it is or appends one URL to it: the normalized link, which the parser
  places on the base domain, which is not in the visited set and which was not in the
  sequence before. So the sequence never holds a URL twice.
\<close>

theorem enqueue_appends_once:
  assumes "reachable P s"
  shows "(queue (enqueue P s link) = queue s \<or>
          (\<exists>n. normalizeUrl P link (Some (baseUrl s)) = Some n \<and>
               queue (enqueue P s link) = queue s @ [n] \<and>
               isSameDomain P s n \<and> n \<notin> visitedUrls s \<and> n \<notin> set (queue s))) \<and>
         distinct (queue (enqueue P s link))"
proof -
  from assms have inv: "frontier_inv P s" by (rule reachable_inv)
  then have inv': "frontier_inv P (enqueue P s link)" by (rule frontier_inv_enqueue)
  from enqueue_cases[of P s link] inv
  have "queue (enqueue P s link) = queue s \<or>
          (\<exists>n. normalizeUrl P link (Some (baseUrl s)) = Some n \<and>
               queue (enqueue P s link) = queue s @ [n] \<and>
               isSameDomain P s n \<and> n \<notin> visitedUrls s \<and> n \<notin> set (queue s))"
    by (auto simp: frontier_inv_def)
  with inv' show ?thesis by (simp add: frontier_inv_def)
qed

theorem enqueue_appends_once_witness:
  "reachable parseURL example_scraper \<and>
   normalizeUrl parseURL ''/Shop/?page=2#top'' (Some (baseUrl example_scraper)) =
     Some ''https://example.com/Shop?page=2'' \<and>
   queue (enqueue parseURL example_scraper ''/Shop/?page=2#top'') =
     queue example_scraper @ [''https://example.com/Shop?page=2''] \<and>
   queue (enqueue parseURL example_scraper ''https://other.org/'') = queue example_scraper \<and>
   queue (enqueue parseURL example_scraper ''/contact/'') = queue example_scraper \<and>
   distinct (queue (enqueue parseURL example_scraper ''/Shop/?page=2#top''))"
proof -
  have c: "new_EmailScraper parseURL ''example.com/shop?x=1'' example_options = Some example_scraper"
    by code_simp
  from new_EmailScraper_fresh[OF c] have r: "reachable parseURL example_scraper" by simp
  have n: "normalizeUrl parseURL ''/Shop/?page=2#top'' (Some (baseUrl example_scraper)) =
     Some ''https://example.com/Shop?page=2''"
    by code_simp
  have q: "queue (enqueue parseURL example_scraper ''/Shop/?page=2#top'') =
     queue example_scraper @ [''https://example.com/Shop?page=2'']"
    by code_simp
  have o: "queue (enqueue parseURL example_scraper ''https://other.org/'') = queue example_scraper"
    by code_simp
  have k: "queue (enqueue parseURL example_scraper ''/contact/'') = queue example_scraper"
    by code_simp
  from enqueue_appends_once[OF r, of "''/Shop/?page=2#top''"]
  have "distinct (queue (enqueue parseURL example_scraper ''/Shop/?page=2#top''))" by simp
  with r n q o k show ?thesis by simp
qed

subsection \<open>The query string\<close>

lemma normalizeUrl_query_distinct:
  assumes "new_URL P a b = Some u" and "new_URL P a' b = Some (u\<lparr>url_query := q'\<rparr>)"
    and "url_query u \<noteq> q'"
  shows "\<exists>n n'. normalizeUrl P a b = Some n \<and> normalizeUrl P a' b = Some n' \<and> n \<noteq> n'"
proof -
  have "toString (normalize_fields u) \<noteq> toString (normalize_fields (u\<lparr>url_query := q'\<rparr>))"
  proof
    assume eq: "toString (normalize_fields u) = toString (normalize_fields (u\<lparr>url_query := q'\<rparr>))"
    have id: "(normalize_fields u)\<lparr>url_query := url_query u\<rparr> = normalize_fields u"
      by (rule url.equality) simp_all
    have "toString ((normalize_fields u)\<lparr>url_query := url_query u\<rparr>) = toString (normalize_fields u)"
      by (simp only: id)
    also have "\<dots> = toString ((normalize_fields u)\<lparr>url_query := q'\<rparr>)"
      using eq by (simp only: normalize_fields_query)
    finally have "toString ((normalize_fields u)\<lparr>url_query := url_query u\<rparr>) =
               toString ((normalize_fields u)\<lparr>url_query := q'\<rparr>)" .
    then have "url_query u = q'" by (rule toString_query) simp
    with assms(3) show False by simp
  qed
  with assms(1,2) show ?thesis by (simp add: normalizeUrl_def)
qed

text \<open>
  C10. \<^verbatim>\<open>normalizeUrl\<close> keeps the query: two links that the parser reads as the same URL
  but for the query are normalized to two different strings. The frontier takes them for
  two URLs: when both are on the base domain and neither was visited or enqueued,
  enqueueing one and then the other appends both.
\<close>

theorem query_kept_in_key:
  assumes "new_URL P a (Some (baseUrl s)) = Some u"
    and "new_URL P a' (Some (baseUrl s)) = Some (u\<lparr>url_query := q'\<rparr>)"
    and "url_query u \<noteq> q'"
  shows "\<exists>n n'. normalizeUrl P a (Some (baseUrl s)) = Some n \<and>
           normalizeUrl P a' (Some (baseUrl s)) = Some n' \<and> n \<noteq> n' \<and>
           (isSameDomain P s n \<and> isSameDomain P s n' \<and>
            n \<notin> visitedUrls s \<and> n \<notin> enqueuedUrls s \<and>
            n' \<notin> visitedUrls s \<and> n' \<notin> enqueuedUrls s \<longrightarrow>
            queue (enqueue P (enqueue P s a) a') = queue s @ [n, n'])"
proof -
  from normalizeUrl_query_distinct[OF assms] obtain n n' where
    n: "normalizeUrl P a (Some (baseUrl s)) = Some n"
    and n': "normalizeUrl P a' (Some (baseUrl s)) = Some n'" and d: "n \<noteq> n'"
    by blast
  from n n' assms(1,2) have ne: "n \<noteq> []" "n' \<noteq> []"
    by (auto simp: normalizeUrl_def toString_nonempty)
  have "queue (enqueue P (enqueue P s a) a') = queue s @ [n, n']"
    if h: "isSameDomain P s n \<and> isSameDomain P s n' \<and>
            n \<notin> visitedUrls s \<and> n \<notin> enqueuedUrls s \<and>
            n' \<notin> visitedUrls s \<and> n' \<notin> enqueuedUrls s"
  proof -
    define s1 where "s1 = s\<lparr>enqueuedUrls := insert n (enqueuedUrls s), queue := queue s @ [n]\<rparr>"
    have e1: "enqueue P s a = s1"
      using n ne h by (simp add: enqueue_def s1_def)
    have f: "baseUrl s1 = baseUrl s" "visitedUrls s1 = visitedUrls s"
      "enqueuedUrls s1 = insert n (enqueuedUrls s)" "queue s1 = queue s @ [n]"
      "baseDomain s1 = baseDomain s"
      by (simp_all add: s1_def)
    have sd: "isSameDomain P s1 n'"
      using h isSameDomain_cong[OF f(5), of P n'] by simp
    have "queue (enqueue P s1 a') = queue s1 @ [n']"
      using n' ne h d sd unfolding enqueue_def[of P s1 a'] f by simp
    then show ?thesis by (simp add: e1 f)
  qed
  with n n' d show ?thesis by blast
qed

theorem query_kept_in_key_witness:
  "new_URL parseURL ''/shop?page=1'' (Some (baseUrl example_scraper)) =
     Some \<lparr>url_scheme = ''https'', url_username = [], url_password = [],
           url_host = Some ''example.com'', url_port = None, url_path = ''/shop'',
           url_opaque = False, url_query = Some ''page=1'', url_fragment = None\<rparr> \<and>
   new_URL parseURL ''/shop?page=2'' (Some (baseUrl example_scraper)) =
     Some \<lparr>url_scheme = ''https'', url_username = [], url_password = [],
           url_host = Some ''example.com'', url_port = None, url_path = ''/shop'',
           url_opaque = False, url_query = Some ''page=2'', url_fragment = None\<rparr> \<and>
   normalizeUrl parseURL ''/shop?page=1'' (Some (baseUrl example_scraper)) =
     Some ''https://example.com/shop?page=1'' \<and>
   normalizeUrl parseURL ''/shop?page=2'' (Some (baseUrl example_scraper)) =
     Some ''https://example.com/shop?page=2'' \<and>
   queue (enqueue parseURL (enqueue parseURL example_scraper ''/shop?page=1'') ''/shop?page=2'') =
     queue example_scraper @ [''https://example.com/shop?page=1'', ''https://example.com/shop?page=2'']"
proof -
  define u where "u = \<lparr>url_scheme = ''https'', url_username = [], url_password = [],
           url_host = Some ''example.com'', url_port = None, url_path = ''/shop'',
           url_opaque = False, url_query = Some ''page=1'', url_fragment = None\<rparr>"
  have p1: "new_URL parseURL ''/shop?page=1'' (Some (baseUrl example_scraper)) = Some u"
    unfolding u_def by code_simp
  have p2: "new_URL parseURL ''/shop?page=2'' (Some (baseUrl example_scraper)) =
      Some (u\<lparr>url_query := Some ''page=2''\<rparr>)"
    unfolding u_def by code_simp
  have q: "url_query u \<noteq> Some ''page=2''" by (simp add: u_def)
  have n1: "normalizeUrl parseURL ''/shop?page=1'' (Some (baseUrl example_scraper)) =
     Some ''https://example.com/shop?page=1''"
    by code_simp
  have n2: "normalizeUrl parseURL ''/shop?page=2'' (Some (baseUrl example_scraper)) =
     Some ''https://example.com/shop?page=2''"
    by code_simp
  have h: "isSameDomain parseURL example_scraper ''https://example.com/shop?page=1'' \<and>
      isSameDomain parseURL example_scraper ''https://example.com/shop?page=2'' \<and>
      ''https://example.com/shop?page=1'' \<notin> visitedUrls example_scraper \<and>
      ''https://example.com/shop?page=1'' \<notin> enqueuedUrls example_scraper \<and>
      ''https://example.com/shop?page=2'' \<notin> visitedUrls example_scraper \<and>
      ''https://example.com/shop?page=2'' \<notin> enqueuedUrls example_scraper"
    by code_simp
  from query_kept_in_key[OF p1 p2 q] n1 n2 h
  have "queue (enqueue parseURL (enqueue parseURL example_scraper ''/shop?page=1'') ''/shop?page=2'') =
     queue example_scraper @ [''https://example.com/shop?page=1'', ''https://example.com/shop?page=2'']"
    by auto
  with p1 p2 n1 n2 show ?thesis unfolding u_def by simp
qed

section \<open>The crawl\<close>

subsection \<open>What one page adds\<close>

lemma frame_refl [simp]: "frame s s" by (simp add: frame_def)

lemma frame_trans: "frame s s' \<Longrightarrow> frame s' s'' \<Longrightarrow> frame s s''"
  by (simp add: frame_def)

lemma grows_refl [simp]: "grows n s s" by (simp add: grows_def)

lemma grows_trans: "grows n s s' \<Longrightarrow> grows m s' s'' \<Longrightarrow> grows (n + m) s s''"
  by (auto simp: grows_def frame_def)

lemma grows_mono: "grows n s s' \<Longrightarrow> n \<le> m \<Longrightarrow> grows m s s'"
  by (auto simp: grows_def)

lemma storeEmail_grows: "grows (Suc 0) s (storeEmail s candidate)"
  by (auto simp: grows_def frame_def storeEmail_def card_insert_if split: option.splits)

lemma foldl_storeEmail_grows: "grows (length cs) s (foldl storeEmail s cs)"
proof (induction cs arbitrary: s)
  case Nil then show ?case by simp
next
  case (Cons c cs)
  from grows_trans[OF storeEmail_grows[of s c] Cons.IH[of "storeEmail s c"]]
  show ?case by simp
qed

lemma store_mailto_grows: "grows (Suc 0) s (store_mailto s href)"
  by (simp add: store_mailto_def Let_def storeEmail_grows)

lemma foldl_store_mailto_grows: "grows (length hs) s (foldl store_mailto s hs)"
proof (induction hs arbitrary: s)
  case Nil then show ?case by simp
next
  case (Cons h hs)
  from grows_trans[OF store_mailto_grows[of s h] Cons.IH[of "store_mailto s h"]]
  show ?case by simp
qed

lemma store_meta_grows: "grows (length (M (trim content))) s (store_meta M s content)"
  by (simp add: store_meta_def Let_def foldl_storeEmail_grows)

lemma foldl_store_meta_grows:
  "grows (sum_list (map (\<lambda>c. length (M (trim c))) cs)) s (foldl (store_meta M) s cs)"
proof (induction cs arbitrary: s)
  case Nil then show ?case by simp
next
  case (Cons c cs)
  from grows_trans[OF store_meta_grows[of M c s] Cons.IH[of "store_meta M s c"]]
  show ?case by simp
qed

lemma enqueue_link_grows: "grows 0 s (enqueue_link P s href)"
  by (simp add: enqueue_link_def grows_def frame_def)

lemma foldl_enqueue_link_grows: "grows 0 s (foldl (enqueue_link P) s hs)"
proof (induction hs arbitrary: s)
  case Nil then show ?case by simp
next
  case (Cons h hs)
  from grows_trans[OF enqueue_link_grows[of s P h] Cons.IH[of "enqueue_link P s h"]]
  show ?case by simp
qed

text \<open>The stop condition compares a count with a budget, so it holds from the budget
  rounded up.\<close>

lemma budget_reached: "(m \<le> of_nat n) = (nat \<lceil>m::rat\<rceil> \<le> n)"
proof -
  have "(m \<le> of_nat n) = (m \<le> of_int (int n))" by simp
  also have "\<dots> = (\<lceil>m\<rceil> \<le> int n)" by (simp only: ceiling_le_iff)
  also have "\<dots> = (nat \<lceil>m\<rceil> \<le> n)" by linarith
  finally show ?thesis .
qed

lemma shouldStop_iff:
  "shouldStop s =
     (nat \<lceil>maxEmails s\<rceil> \<le> card (emails s) \<or> nat \<lceil>maxPages s\<rceil> \<le> card (visitedUrls s))"
  by (simp add: shouldStop_def budget_reached)

lemma not_stop_emails: "\<not> shouldStop s \<Longrightarrow> card (emails s) \<le> nat \<lceil>maxEmails s\<rceil> - 1 \<and> 1 \<le> nat \<lceil>maxEmails s\<rceil>"
  by (auto simp: shouldStop_iff)

lemma scan_text_bound:
  assumes "\<not> shouldStop s" and "list_all (\<lambda>part. length (M part) \<le> K) parts"
  shows "frame s (scan_text M s parts) \<and>
         (finite (emails s) \<longrightarrow>
            finite (emails (scan_text M s parts)) \<and>
            card (emails (scan_text M s parts)) \<le> nat \<lceil>maxEmails s\<rceil> - 1 + K)"
  using assms
proof (induction parts arbitrary: s)
  case Nil
  with not_stop_emails[of s] show ?case by auto
next
  case (Cons part rest)
  define s' where "s' = foldl storeEmail s (M part)"
  have g: "grows (length (M part)) s s'" unfolding s'_def by (rule foldl_storeEmail_grows)
  from Cons.prems have k: "length (M part) \<le> K" and rest: "list_all (\<lambda>part. length (M part) \<le> K) rest"
    by simp_all
  from g have fr: "frame s s'" by (simp add: grows_def)
  have b: "finite (emails s) \<longrightarrow> finite (emails s') \<and> card (emails s') \<le> nat \<lceil>maxEmails s\<rceil> - 1 + K"
    using g k not_stop_emails[OF Cons.prems(1)] by (auto simp: grows_def)
  show ?case
  proof (cases "shouldStop s'")
    case True
    then have "scan_text M s (part # rest) = s'" by (simp add: s'_def Let_def)
    with fr b show ?thesis by simp
  next
    case False
    then have e: "scan_text M s (part # rest) = scan_text M s' rest" by (simp add: s'_def Let_def)
    from Cons.IH[OF False rest] fr b show ?thesis
      unfolding e by (auto simp: frame_def)
  qed
qed

lemma parsePage_bound:
  assumes "page_within M K pg"
  shows "frame s (parsePage P M s pg) \<and>
         (finite (emails s) \<longrightarrow>
            finite (emails (parsePage P M s pg)) \<and>
            card (emails (parsePage P M s pg)) \<le> max (card (emails s) + K) (nat \<lceil>maxEmails s\<rceil> - 1 + K))"
proof -
  define s1 where "s1 = foldl store_mailto s (mailto_hrefs pg)"
  define s2 where "s2 = foldl (store_meta M) s1 (meta_contents pg)"
  define s3 where "s3 = scan_text M s2 (text_parts pg)"
  define s4 where "s4 = foldl (enqueue_link P) s3 (link_hrefs pg)"
  from assms have k1: "length (mailto_hrefs pg) \<le> K"
    and k2: "sum_list (map (\<lambda>c. length (M (trim c))) (meta_contents pg)) \<le> K"
    and k3: "list_all (\<lambda>part. length (M part) \<le> K) (text_parts pg)"
    by (simp_all add: page_within_def)
  have g1: "grows K s s1"
    unfolding s1_def by (rule grows_mono[OF foldl_store_mailto_grows k1])
  have g2: "grows K s1 s2"
    unfolding s2_def by (rule grows_mono[OF foldl_store_meta_grows k2])
  have g4: "grows 0 s3 s4"
    unfolding s4_def by (rule foldl_enqueue_link_grows)
  have pp: "parsePage P M s pg =
     (if shouldStop s1 then s1 else if shouldStop s2 then s2 else if shouldStop s3 then s3 else s4)"
    by (simp add: parsePage_def Let_def s1_def s2_def s3_def s4_def)
  show ?thesis
  proof (cases "shouldStop s1")
    case True
    with pp g1 show ?thesis by (auto simp: grows_def)
  next
    case n1: False
    have f1: "frame s s1" using g1 by (simp add: grows_def)
    have b2: "frame s s2 \<and> (finite (emails s) \<longrightarrow> finite (emails s2) \<and>
                card (emails s2) \<le> nat \<lceil>maxEmails s\<rceil> - 1 + K)"
      using g1 g2 not_stop_emails[OF n1] by (auto simp: grows_def frame_def)
    show ?thesis
    proof (cases "shouldStop s2")
      case True
      with pp n1 b2 show ?thesis by auto
    next
      case n2: False
      from scan_text_bound[OF n2 k3] b2
      have b3: "frame s s3 \<and> (finite (emails s) \<longrightarrow> finite (emails s3) \<and>
                card (emails s3) \<le> nat \<lceil>maxEmails s\<rceil> - 1 + K)"
        unfolding s3_def by (auto simp: frame_def)
      with g4 have b4: "frame s s4 \<and> (finite (emails s) \<longrightarrow> finite (emails s4) \<and>
                card (emails s4) \<le> nat \<lceil>maxEmails s\<rceil> - 1 + K)"
        by (auto simp: grows_def frame_def)
      from pp n1 n2 b3 b4 show ?thesis by auto
    qed
  qed
qed

subsection \<open>Steps\<close>

lemma step_Claim:
  "step P M (Claim i url) c = Some c' \<longleftrightarrow>
     (i < length (workers c) \<and> workers c ! i = Ready \<and> \<not> shouldStop (scr c) \<and>
      fst (getNextUrl (scr c)) = Some url \<and>
      c' = \<lparr>scr = (snd (getNextUrl (scr c)))
                    \<lparr>visitedUrls := insert url (visitedUrls (snd (getNextUrl (scr c))))\<rparr>,
            workers = (workers c)[i := Fetching url]\<rparr>)"
  by (auto simp: step_def Let_def)

lemma step_Exit:
  "step P M (Exit i) c = Some c' \<longleftrightarrow>
     (i < length (workers c) \<and> workers c ! i = Ready \<and>
      (shouldStop (scr c) \<or> fst (getNextUrl (scr c)) = None) \<and>
      c' = \<lparr>scr = (if shouldStop (scr c) then scr c else snd (getNextUrl (scr c))),
            workers = (workers c)[i := Done]\<rparr>)"
  by (auto simp: step_def Let_def)

lemma step_Fetched:
  "step P M (Fetched i res pg) c = Some c' \<longleftrightarrow>
     (i < length (workers c) \<and> (\<exists>url. workers c ! i = Fetching url) \<and>
      c' = \<lparr>scr = (case fetchPage res of
                      None \<Rightarrow> scr c
                    | Some html \<Rightarrow> if html = [] then scr c else parsePage P M (scr c) pg),
            workers = (workers c)[i := Sleeping]\<rparr>)"
  by (auto simp: step_def Let_def split: wstate.splits)

lemma step_Wake:
  "step P M (Wake i) c = Some c' \<longleftrightarrow>
     (i < length (workers c) \<and> workers c ! i = Sleeping \<and>
      c' = \<lparr>scr = scr c, workers = (workers c)[i := Ready]\<rparr>)"
  by (auto simp: step_def Let_def)

lemma getNextUrl_frame: "frame s (snd (getNextUrl s)) \<and> emails (snd (getNextUrl s)) = emails s"
  using getNextUrl_snd[of s] by (auto simp: frame_def)

lemma parsePage_frame: "frame s (parsePage P M s pg)"
proof -
  define K where "K = length (mailto_hrefs pg) +
      sum_list (map (\<lambda>c. length (M (trim c))) (meta_contents pg)) +
      sum_list (map (\<lambda>part. length (M part)) (text_parts pg))"
  have "list_all (\<lambda>part. length (M part) \<le> K) (text_parts pg)"
    unfolding K_def list_all_iff using member_le_sum_list[of _ "map (\<lambda>part. length (M part)) (text_parts pg)"]
    by (auto simp: trans_le_add2)
  then have "page_within M K pg" by (simp add: page_within_def K_def)
  from parsePage_bound[OF this] show ?thesis by simp
qed

text \<open>A property that every step keeps holds after every run.\<close>

lemma run_induct:
  assumes "run P M evs c = Some c'" and "I c"
    and "\<And>ev c c'. I c \<Longrightarrow> step P M ev c = Some c' \<Longrightarrow> I c'"
  shows "I c'"
  using assms(1,2)
proof (induction evs arbitrary: c)
  case Nil then show ?case by simp
next
  case (Cons ev evs)
  from Cons.prems(1) obtain c1 where s: "step P M ev c = Some c1" and r: "run P M evs c1 = Some c'"
    by (auto split: option.splits)
  from Cons.IH[OF r assms(3)[OF Cons.prems(2) s]] show ?case .
qed

text \<open>Every state of the scraper in a crawl is a reachable state of the frontier.\<close>

lemma foldl_reachable:
  assumes "\<And>s x. reachable P s \<Longrightarrow> reachable P (f s x)" and "reachable P s"
  shows "reachable P (foldl f s xs)"
  using assms(2)
proof (induction xs arbitrary: s)
  case Nil then show ?case by simp
next
  case (Cons x xs)
  from Cons.IH[OF assms(1)[OF Cons.prems]] show ?case by simp
qed

lemma store_mailto_reachable: "reachable P s \<Longrightarrow> reachable P (store_mailto s href)"
  by (simp add: store_mailto_def Let_def reachable.stored)

lemma store_meta_reachable: "reachable P s \<Longrightarrow> reachable P (store_meta M s content)"
  by (simp add: store_meta_def Let_def foldl_reachable reachable.stored)

lemma scan_text_reachable: "reachable P s \<Longrightarrow> reachable P (scan_text M s parts)"
proof (induction parts arbitrary: s)
  case Nil then show ?case by simp
next
  case (Cons part rest)
  have "reachable P (foldl storeEmail s (M part))"
    using Cons.prems by (simp add: foldl_reachable reachable.stored)
  with Cons.IH show ?case by (simp add: Let_def)
qed

lemma enqueue_link_reachable: "reachable P s \<Longrightarrow> reachable P (enqueue_link P s href)"
  by (simp add: enqueue_link_def reachable.enqueued)

lemma parsePage_reachable:
  assumes "reachable P s"
  shows "reachable P (parsePage P M s pg)"
proof -
  have r1: "reachable P (foldl store_mailto s (mailto_hrefs pg))"
    using assms by (simp add: foldl_reachable store_mailto_reachable)
  then have r2: "reachable P (foldl (store_meta M) (foldl store_mailto s (mailto_hrefs pg)) (meta_contents pg))"
    by (simp add: foldl_reachable store_meta_reachable)
  then have r3: "reachable P (scan_text M
      (foldl (store_meta M) (foldl store_mailto s (mailto_hrefs pg)) (meta_contents pg))
      (text_parts pg))"
    by (rule scan_text_reachable)
  then have r4: "reachable P (foldl (enqueue_link P) (scan_text M
      (foldl (store_meta M) (foldl store_mailto s (mailto_hrefs pg)) (meta_contents pg))
      (text_parts pg)) (link_hrefs pg))"
    by (simp add: foldl_reachable enqueue_link_reachable)
  from r1 r2 r3 r4 show ?thesis by (simp add: parsePage_def Let_def)
qed

lemma step_reachable:
  assumes "reachable P (scr c)" and "step P M ev c = Some c'"
  shows "reachable P (scr c')"
proof (cases ev)
  case (Claim i url)
  with assms(2) have "scr c' = (snd (getNextUrl (scr c)))
                    \<lparr>visitedUrls := insert url (visitedUrls (snd (getNextUrl (scr c))))\<rparr>"
    by (auto simp: step_Claim)
  with reachable.visited[OF reachable.advanced[OF assms(1)], of url] show ?thesis by simp
next
  case (Exit i)
  with assms reachable.advanced[OF assms(1)] show ?thesis by (auto simp: step_Exit)
next
  case (Fetched i res pg)
  with assms parsePage_reachable[OF assms(1), of M pg] show ?thesis
    by (auto simp: step_Fetched split: option.splits)
next
  case (Wake i)
  with assms show ?thesis by (auto simp: step_Wake)
qed

lemma crawl_states_reachable:
  assumes "new_EmailScraper P input opts = Some s0" and "run P M evs (start s0) = Some c"
  shows "reachable P (scr c)"
proof -
  from new_EmailScraper_fresh[OF assms(1)] have "reachable P (scr (start s0))"
    by (simp add: start_def)
  with assms(2) show ?thesis
    by (rule run_induct[where I = "\<lambda>c. reachable P (scr c)"]) (rule step_reachable)
qed

subsection \<open>The page budget\<close>

lemma step_pages_inv:
  assumes "pages_inv c" and "step P M ev c = Some c'"
  shows "pages_inv c' \<and> maxPages (scr c') = maxPages (scr c)"
proof (cases ev)
  case (Claim i url)
  with assms(2) have ns: "\<not> shouldStop (scr c)"
    and c': "scr c' = (snd (getNextUrl (scr c)))
                    \<lparr>visitedUrls := insert url (visitedUrls (snd (getNextUrl (scr c))))\<rparr>"
    by (auto simp: step_Claim)
  from ns have "card (visitedUrls (scr c)) < nat \<lceil>maxPages (scr c)\<rceil>"
    by (simp add: shouldStop_iff)
  with assms(1) getNextUrl_frame[of "scr c"] show ?thesis
    by (auto simp: pages_inv_def c' frame_def card_insert_if)
next
  case (Exit i)
  with assms getNextUrl_frame[of "scr c"] show ?thesis
    by (auto simp: step_Exit pages_inv_def frame_def)
next
  case (Fetched i res pg)
  with assms parsePage_frame[of "scr c" P M pg] show ?thesis
    by (auto simp: step_Fetched pages_inv_def frame_def split: option.splits)
next
  case (Wake i)
  with assms show ?thesis by (auto simp: step_Wake pages_inv_def)
qed

text \<open>
  C4. In every crawl of a constructed scraper, under every schedule of its workers, the
  visited set never has more members than \<^verbatim>\<open>maxPages\<close> rounded up to a whole number: a
  worker adds a URL in the step in which it found the count below \<^verbatim>\<open>maxPages\<close>. When
  \<^verbatim>\<open>maxPages\<close> is a whole number, the count never exceeds \<^verbatim>\<open>maxPages\<close>.
\<close>

theorem pages_within_budget:
  assumes "new_EmailScraper P input opts = Some s0" and "run P M evs (start s0) = Some c"
  shows "card (visitedUrls (scr c)) \<le> nat \<lceil>maxPages s0\<rceil> \<and>
         (maxPages s0 \<in> \<int> \<longrightarrow> of_nat (card (visitedUrls (scr c))) \<le> maxPages s0)"
proof -
  let ?I = "\<lambda>c. pages_inv c \<and> maxPages (scr c) = maxPages s0"
  from new_EmailScraper_fresh[OF assms(1)] have "?I (start s0)"
    by (simp add: pages_inv_def start_def)
  with assms(2) have "?I c"
  proof (rule run_induct)
    fix ev c c'
    assume "?I c" and "step P M ev c = Some c'"
    with step_pages_inv[of c P M ev c'] show "?I c'" by simp
  qed
  then have a: "card (visitedUrls (scr c)) \<le> nat \<lceil>maxPages s0\<rceil>"
    by (auto simp: pages_inv_def)
  have "of_nat (card (visitedUrls (scr c))) \<le> maxPages s0" if "maxPages s0 \<in> \<int>"
  proof -
    from that obtain z where z: "maxPages s0 = of_int z" by (auto elim: Ints_cases)
    from new_EmailScraper_fresh[OF assms(1)] have "1 \<le> maxPages s0" by simp
    with z have "1 \<le> z" by simp
    with a z have "int (card (visitedUrls (scr c))) \<le> z" by simp
    then have "(of_int (int (card (visitedUrls (scr c)))) :: rat) \<le> of_int z"
      by (simp only: of_int_le_iff)
    with z show ?thesis by simp
  qed
  with a show ?thesis by blast
qed

theorem pages_within_budget_witness:
  "new_EmailScraper parseURL ''example.com/shop?x=1'' example_options = Some example_scraper \<and>
   run parseURL no_match example_events (start example_scraper) = Some example_final \<and>
   card (visitedUrls (scr example_final)) = 2 \<and> maxPages example_scraper = 3 \<and>
   maxPages example_scraper \<in> \<int> \<and>
   card (visitedUrls (scr example_final)) \<le> nat \<lceil>maxPages example_scraper\<rceil> \<and>
   of_nat (card (visitedUrls (scr example_final))) \<le> maxPages example_scraper"
proof -
  have c: "new_EmailScraper parseURL ''example.com/shop?x=1'' example_options = Some example_scraper"
    by code_simp
  have r: "run parseURL no_match example_events (start example_scraper) = Some example_final"
    by code_simp
  have v: "card (visitedUrls (scr example_final)) = 2" by code_simp
  have m: "maxPages example_scraper = 3" by (simp add: example_scraper_def)
  have z: "maxPages example_scraper \<in> \<int>" by (simp add: m)
  from pages_within_budget[OF c r] z c r v m show ?thesis by blast
qed

text \<open>The constructor does not round: with the option 1.5 the worker claims a page at
  the counts 0 and 1, and the crawl ends with two pages visited.\<close>

theorem pages_exceed_fraction:
  "new_EmailScraper parseURL ''example.com'' fraction_options = Some fraction_scraper \<and>
   maxPages fraction_scraper = 3 / 2 \<and>
   run parseURL no_match fraction_events (start fraction_scraper) = Some fraction_final \<and>
   maxPages (scr fraction_final) = 3 / 2 \<and>
   card (visitedUrls (scr fraction_final)) = 2 \<and>
   \<not> of_nat (card (visitedUrls (scr fraction_final))) \<le> maxPages (scr fraction_final)"
  by (intro conjI; code_simp)

subsection \<open>The email budget\<close>

lemma in_flight_append: "in_flight (xs @ ys) = in_flight xs @ in_flight ys"
  by (induction xs rule: in_flight.induct) simp_all

lemma in_flight_split:
  assumes "i < length ws"
  shows "in_flight ws = in_flight (take i ws) @ in_flight [ws ! i] @ in_flight (drop (Suc i) ws)"
    and "in_flight (ws[i := w]) = in_flight (take i ws) @ in_flight [w] @ in_flight (drop (Suc i) ws)"
proof -
  have "ws = take i ws @ [ws ! i] @ drop (Suc i) ws"
    using assms by (simp add: id_take_nth_drop)
  then have "in_flight ws = in_flight (take i ws @ [ws ! i] @ drop (Suc i) ws)" by simp
  then show "in_flight ws = in_flight (take i ws) @ in_flight [ws ! i] @ in_flight (drop (Suc i) ws)"
    by (simp only: in_flight_append)
  have "ws[i := w] = take i ws @ [w] @ drop (Suc i) ws"
    using assms by (simp add: upd_conv_take_nth_drop)
  then show "in_flight (ws[i := w]) = in_flight (take i ws) @ in_flight [w] @ in_flight (drop (Suc i) ws)"
    by (simp only: in_flight_append)
qed

lemma in_flight_length: "length (in_flight ws) \<le> length ws"
  by (induction ws rule: in_flight.induct) simp_all

lemma start_fields [simp]:
  "scr (start s) = s" "workers (start s) = replicate (nat \<lfloor>concurrency s\<rfloor>) Ready"
  by (simp_all add: start_def)

lemma in_flight_replicate_Ready [simp]: "in_flight (replicate n Ready) = []"
  by (induction n) simp_all

lemma step_workers_length:
  "step P M ev c = Some c' \<Longrightarrow> length (workers c') = length (workers c)"
  by (cases ev) (auto simp: step_Claim step_Exit step_Fetched step_Wake)

lemma step_emails_inv:
  assumes inv: "emails_inv K c" and st: "step P M ev c = Some c'"
    and ev: "events_within M K [ev]"
  shows "emails_inv K c' \<and> maxEmails (scr c') = maxEmails (scr c)"
proof (cases ev)
  case (Claim i url)
  with st have i: "i < length (workers c)" and rd: "workers c ! i = Ready"
    and ns: "\<not> shouldStop (scr c)"
    and sc: "scr c' = (snd (getNextUrl (scr c)))
                    \<lparr>visitedUrls := insert url (visitedUrls (snd (getNextUrl (scr c))))\<rparr>"
    and ws: "workers c' = (workers c)[i := Fetching url]"
    by (auto simp: step_Claim)
  from getNextUrl_frame[of "scr c"] sc
  have em: "emails (scr c') = emails (scr c)" and me: "maxEmails (scr c') = maxEmails (scr c)"
    by (simp_all add: frame_def)
  have "length (in_flight (workers c')) \<le> length (workers c')" by (rule in_flight_length)
  then have "length (in_flight (workers c')) \<le> length (workers c)" using ws by simp
  then have a: "K * length (in_flight (workers c')) \<le> K * length (workers c)"
    by (rule mult_le_mono2)
  from not_stop_emails[OF ns] have b: "card (emails (scr c)) \<le> nat \<lceil>maxEmails (scr c)\<rceil> - 1" by simp
  have "card (emails (scr c)) + K * length (in_flight (workers c'))
      \<le> nat \<lceil>maxEmails (scr c)\<rceil> - 1 + K * length (workers c)"
    by (rule add_mono[OF b a])
  moreover have "length (workers c') = length (workers c)" using ws by simp
  moreover from inv have "finite (emails (scr c))" by (simp add: emails_inv_def)
  ultimately show ?thesis unfolding emails_inv_def em me by simp
next
  case (Exit i)
  with st have i: "i < length (workers c)" and rd: "workers c ! i = Ready"
    and sc: "scr c' = (if shouldStop (scr c) then scr c else snd (getNextUrl (scr c)))"
    and ws: "workers c' = (workers c)[i := Done]"
    by (auto simp: step_Exit)
  from getNextUrl_frame[of "scr c"] sc
  have em: "emails (scr c') = emails (scr c)" and me: "maxEmails (scr c') = maxEmails (scr c)"
    by (auto simp: frame_def)
  have "in_flight (workers c') = in_flight (workers c)"
    using in_flight_split(1)[OF i] in_flight_split(2)[OF i, of Done] rd ws by simp
  with inv show ?thesis by (simp add: emails_inv_def em me ws)
next
  case (Wake i)
  with st have i: "i < length (workers c)" and rd: "workers c ! i = Sleeping"
    and sc: "scr c' = scr c" and ws: "workers c' = (workers c)[i := Ready]"
    by (auto simp: step_Wake)
  have "in_flight (workers c') = in_flight (workers c)"
    using in_flight_split(1)[OF i] in_flight_split(2)[OF i, of Ready] rd ws by simp
  with inv show ?thesis by (simp add: emails_inv_def sc ws)
next
  case (Fetched i res pg)
  with st obtain url where i: "i < length (workers c)" and fe: "workers c ! i = Fetching url"
    and sc: "scr c' = (case fetchPage res of
                      None \<Rightarrow> scr c
                    | Some html \<Rightarrow> if html = [] then scr c else parsePage P M (scr c) pg)"
    and ws: "workers c' = (workers c)[i := Sleeping]"
    by (auto simp: step_Fetched)
  from Fetched ev have pw: "page_within M K pg" by simp
  have len: "length (in_flight (workers c)) = Suc (length (in_flight (workers c')))"
    using in_flight_split(1)[OF i] in_flight_split(2)[OF i, of Sleeping] fe ws by simp
  have le: "length (in_flight (workers c)) \<le> length (workers c)" by (rule in_flight_length)
  from inv have fin: "finite (emails (scr c))" by (simp add: emails_inv_def)
  have "scr c' = scr c \<or> scr c' = parsePage P M (scr c) pg"
    using sc by (auto split: option.splits)
  then have b: "frame (scr c) (scr c') \<and> finite (emails (scr c')) \<and>
      card (emails (scr c')) \<le> max (card (emails (scr c)) + K) (nat \<lceil>maxEmails (scr c)\<rceil> - 1 + K)"
    using parsePage_bound[OF pw, of "scr c" P] fin by auto
  then have me: "maxEmails (scr c') = maxEmails (scr c)" by (simp add: frame_def)
  have m1: "K * length (in_flight (workers c)) = K + K * length (in_flight (workers c'))"
    by (simp add: len)
  have m2: "K * length (in_flight (workers c)) \<le> K * length (workers c)"
    using le by simp
  have "card (emails (scr c')) + K * length (in_flight (workers c'))
          \<le> nat \<lceil>maxEmails (scr c)\<rceil> - 1 + K * length (workers c)"
    using b inv m1 m2 unfolding emails_inv_def by linarith
  with b me ws show ?thesis by (simp add: emails_inv_def)
qed

lemma run_emails_inv:
  "run P M evs c = Some c' \<Longrightarrow> events_within M K evs \<Longrightarrow> emails_inv K c \<Longrightarrow>
   emails_inv K c' \<and> maxEmails (scr c') = maxEmails (scr c) \<and>
   length (workers c') = length (workers c)"
proof (induction evs arbitrary: c)
  case Nil then show ?case by simp
next
  case (Cons ev evs)
  from Cons.prems(1) obtain c1 where s: "step P M ev c = Some c1" and r: "run P M evs c1 = Some c'"
    by (auto split: option.splits)
  from Cons.prems(2) have e1: "events_within M K [ev]" and e2: "events_within M K evs"
    by (cases ev; simp)+
  from step_emails_inv[OF Cons.prems(3) s e1] Cons.IH[OF r e2] step_workers_length[OF s]
  show ?case by simp
qed

text \<open>
  C1. The stop condition is tested between the groups of candidates of a page, not
  between two candidates, and a page whose fetch was in flight is parsed at least up
  to its \<^verbatim>\<open>mailto:\<close> links. If no page of the crawl offers more than \<open>K\<close> candidates in
  one group, the validated emails number at most \<^verbatim>\<open>maxEmails\<close> rounded up, less one, plus
  \<open>K\<close> for each worker; the workers are \<^verbatim>\<open>concurrency\<close> rounded down. For whole numbers
  that is \<^verbatim>\<open>maxEmails - 1 + K * concurrency\<close>.
\<close>

theorem emails_overshoot_bound:
  assumes "new_EmailScraper P input opts = Some s0" and "run P M evs (start s0) = Some c"
    and "events_within M K evs"
  shows "card (emails (scr c)) \<le> nat \<lceil>maxEmails s0\<rceil> - 1 + K * nat \<lfloor>concurrency s0\<rfloor> \<and>
         (maxEmails s0 \<in> \<int> \<and> concurrency s0 \<in> \<int> \<longrightarrow>
            of_nat (card (emails (scr c))) \<le> maxEmails s0 - 1 + of_nat K * concurrency s0)"
proof -
  from new_EmailScraper_fresh[OF assms(1)] have "emails_inv K (start s0)"
    by (simp add: emails_inv_def)
  from run_emails_inv[OF assms(2,3) this]
  have "card (emails (scr c)) + K * length (in_flight (workers c))
          \<le> nat \<lceil>maxEmails (scr c)\<rceil> - 1 + K * length (workers c)"
    and "maxEmails (scr c) = maxEmails s0" and "length (workers c) = nat \<lfloor>concurrency s0\<rfloor>"
    by (auto simp: emails_inv_def)
  then have a: "card (emails (scr c)) \<le> nat \<lceil>maxEmails s0\<rceil> - 1 + K * nat \<lfloor>concurrency s0\<rfloor>"
    by simp
  have "of_nat (card (emails (scr c))) \<le> maxEmails s0 - 1 + of_nat K * concurrency s0"
    if h: "maxEmails s0 \<in> \<int> \<and> concurrency s0 \<in> \<int>"
  proof -
    from h obtain m where m: "maxEmails s0 = of_int m" by (auto elim: Ints_cases)
    from h obtain n where n: "concurrency s0 = of_int n" by (auto elim: Ints_cases)
    from new_EmailScraper_fresh[OF assms(1)] m n have p: "1 \<le> m" "1 \<le> n" by simp_all
    from a m n have "card (emails (scr c)) \<le> nat m - 1 + K * nat n" by simp
    then have "int (card (emails (scr c))) \<le> int (nat m - 1 + K * nat n)"
      by (simp only: of_nat_le_iff)
    also have "int (nat m - 1 + K * nat n) = m - 1 + int K * n" using p by simp
    finally have "(of_int (int (card (emails (scr c)))) :: rat) \<le> of_int (m - 1 + int K * n)"
      by (simp only: of_int_le_iff)
    then show ?thesis by (simp add: m n)
  qed
  with a show ?thesis by blast
qed

theorem emails_overshoot_bound_witness:
  "new_EmailScraper parseURL ''example.com/shop?x=1'' example_options = Some example_scraper \<and>
   run parseURL no_match example_events (start example_scraper) = Some example_final \<and>
   events_within no_match 2 example_events \<and>
   card (emails (scr example_final)) = 3 \<and>
   maxEmails example_scraper = 2 \<and> concurrency example_scraper = 2 \<and>
   maxEmails example_scraper \<in> \<int> \<and> concurrency example_scraper \<in> \<int> \<and>
   card (emails (scr example_final))
     \<le> nat \<lceil>maxEmails example_scraper\<rceil> - 1 + 2 * nat \<lfloor>concurrency example_scraper\<rfloor> \<and>
   of_nat (card (emails (scr example_final)))
     \<le> maxEmails example_scraper - 1 + of_nat 2 * concurrency example_scraper"
proof -
  have c: "new_EmailScraper parseURL ''example.com/shop?x=1'' example_options = Some example_scraper"
    by code_simp
  have r: "run parseURL no_match example_events (start example_scraper) = Some example_final"
    by code_simp
  have w: "events_within no_match 2 example_events" by code_simp
  have v: "card (emails (scr example_final)) = 3" by code_simp
  have m: "maxEmails example_scraper = 2 \<and> concurrency example_scraper = 2"
    by (simp add: example_scraper_def)
  have z: "maxEmails example_scraper \<in> \<int> \<and> concurrency example_scraper \<in> \<int>"
    by (simp add: m)
  from emails_overshoot_bound[OF c r w] z c r w v m show ?thesis by blast
qed

text \<open>With one worker there is no other fetch in flight. The worker claims the only page
  while the stop condition is false, and the four \<^verbatim>\<open>mailto:\<close> links of that page are all
  stored before the condition is tested again: four emails against a budget of one.\<close>

theorem emails_exceed_budget:
  "new_EmailScraper parseURL ''example.com'' solo_options = Some solo_scraper \<and>
   workers (start solo_scraper) = [Ready] \<and> \<not> shouldStop solo_scraper \<and>
   run parseURL no_match solo_events (start solo_scraper) = Some solo_final \<and>
   maxEmails (scr solo_final) = 1 \<and> concurrency (scr solo_final) = 1 \<and>
   claimed solo_events = [''https://example.com/''] \<and>
   card (emails (scr solo_final)) = 4"
  by (intro conjI; code_simp)

text \<open>The bound rounds \<^verbatim>\<open>maxEmails\<close> up. With \<^verbatim>\<open>maxEmails\<close> 1.5, one worker and pages of one
  \<^verbatim>\<open>mailto:\<close> link each, the second page is claimed at the count 1 and the crawl ends
  with two emails, more than \<^verbatim>\<open>maxEmails - 1 + K * concurrency\<close>, which is 1.5.\<close>

lemma emails_exceed_fraction:
  "new_EmailScraper parseURL ''example.com'' (fraction_options\<lparr>opt_concurrency := Some 1\<rparr>)
     = Some (fraction_scraper\<lparr>concurrency := 1\<rparr>) \<and>
   workers (start (fraction_scraper\<lparr>concurrency := 1\<rparr>)) = [Ready] \<and>
   run parseURL no_match fraction_events (start (fraction_scraper\<lparr>concurrency := 1\<rparr>))
     = Some (fraction_final\<lparr>scr := (scr fraction_final)\<lparr>concurrency := 1\<rparr>\<rparr>) \<and>
   events_within no_match 1 fraction_events \<and>
   maxEmails fraction_scraper = 3 / 2 \<and>
   card (emails (scr fraction_final)) = 2 \<and>
   \<not> of_nat (card (emails (scr fraction_final))) \<le> maxEmails fraction_scraper - 1 + of_nat 1 * 1"
  by (intro conjI; code_simp)

subsection \<open>Claimed URLs\<close>

lemma step_visited:
  assumes "step P M ev c = Some c'"
  shows "visitedUrls (scr c') = set (claimed [ev]) \<union> visitedUrls (scr c) \<and>
         set (claimed [ev]) \<inter> visitedUrls (scr c) = {}"
proof (cases ev)
  case (Claim i url)
  with assms have g: "fst (getNextUrl (scr c)) = Some url"
    and sc: "scr c' = (snd (getNextUrl (scr c)))
                    \<lparr>visitedUrls := insert url (visitedUrls (snd (getNextUrl (scr c))))\<rparr>"
    by (auto simp: step_Claim)
  from getNextUrl_fresh[OF g] getNextUrl_frame[of "scr c"] sc Claim show ?thesis
    by (auto simp: frame_def)
next
  case (Exit i)
  with assms getNextUrl_frame[of "scr c"] show ?thesis
    by (auto simp: step_Exit frame_def)
next
  case (Fetched i res pg)
  with assms parsePage_frame[of "scr c" P M pg] show ?thesis
    by (auto simp: step_Fetched frame_def split: option.splits)
next
  case (Wake i)
  with assms show ?thesis by (auto simp: step_Wake)
qed

lemma claimed_Cons: "claimed (ev # evs) = claimed [ev] @ claimed evs"
  by (cases ev) simp_all

lemma run_claimed:
  "run P M evs c = Some c' \<Longrightarrow>
   visitedUrls (scr c') = set (claimed evs) \<union> visitedUrls (scr c) \<and>
   set (claimed evs) \<inter> visitedUrls (scr c) = {} \<and> distinct (claimed evs)"
proof (induction evs arbitrary: c)
  case Nil then show ?case by simp
next
  case (Cons ev evs)
  from Cons.prems obtain c1 where s: "step P M ev c = Some c1" and r: "run P M evs c1 = Some c'"
    by (auto split: option.splits)
  have d: "distinct (claimed [ev])"
    by (cases ev) simp_all
  from step_visited[OF s] Cons.IH[OF r] d show ?case
    unfolding claimed_Cons[of ev evs] by auto
qed

lemma step_flight_inv:
  assumes inv: "flight_inv c" and st: "step P M ev c = Some c'"
  shows "flight_inv c'"
proof (cases ev)
  case (Claim i url)
  with st have i: "i < length (workers c)" and rd: "workers c ! i = Ready"
    and g: "fst (getNextUrl (scr c)) = Some url"
    and ws: "workers c' = (workers c)[i := Fetching url]"
    by (auto simp: step_Claim)
  from step_visited[OF st] Claim
  have v: "visitedUrls (scr c') = insert url (visitedUrls (scr c))" and n: "url \<notin> visitedUrls (scr c)"
    by auto
  from in_flight_split(1)[OF i] in_flight_split(2)[OF i, of "Fetching url"] rd ws
  have a: "in_flight (workers c) = in_flight (take i (workers c)) @ in_flight (drop (Suc i) (workers c))"
    and b: "in_flight (workers c') =
         in_flight (take i (workers c)) @ url # in_flight (drop (Suc i) (workers c))"
    by simp_all
  from inv n show ?thesis unfolding flight_inv_def a b v by auto
next
  case (Exit i)
  with st have i: "i < length (workers c)" and rd: "workers c ! i = Ready"
    and ws: "workers c' = (workers c)[i := Done]"
    by (auto simp: step_Exit)
  have "in_flight (workers c') = in_flight (workers c)"
    using in_flight_split(1)[OF i] in_flight_split(2)[OF i, of Done] rd ws by simp
  with inv step_visited[OF st] Exit show ?thesis by (simp add: flight_inv_def)
next
  case (Wake i)
  with st have i: "i < length (workers c)" and rd: "workers c ! i = Sleeping"
    and ws: "workers c' = (workers c)[i := Ready]"
    by (auto simp: step_Wake)
  have "in_flight (workers c') = in_flight (workers c)"
    using in_flight_split(1)[OF i] in_flight_split(2)[OF i, of Ready] rd ws by simp
  with inv step_visited[OF st] Wake show ?thesis by (simp add: flight_inv_def)
next
  case (Fetched i res pg)
  with st obtain url where i: "i < length (workers c)" and fe: "workers c ! i = Fetching url"
    and ws: "workers c' = (workers c)[i := Sleeping]"
    by (auto simp: step_Fetched)
  from in_flight_split(1)[OF i] in_flight_split(2)[OF i, of Sleeping] fe ws
  have a: "in_flight (workers c) =
         in_flight (take i (workers c)) @ url # in_flight (drop (Suc i) (workers c))"
    and b: "in_flight (workers c') = in_flight (take i (workers c)) @ in_flight (drop (Suc i) (workers c))"
    by simp_all
  from inv step_visited[OF st] Fetched show ?thesis unfolding flight_inv_def a b by auto
qed

text \<open>
  C3. In every crawl of a constructed scraper no URL is claimed twice, by the same worker
  or by two: the claimed URLs are pairwise distinct and are exactly the visited set, the
  fetches in progress are for distinct URLs that are already visited, and \<^verbatim>\<open>getNextUrl\<close>
  never returns a visited URL.
\<close>

theorem no_url_fetched_twice:
  assumes "new_EmailScraper P input opts = Some s0" and "run P M evs (start s0) = Some c"
  shows "distinct (claimed evs) \<and> set (claimed evs) = visitedUrls (scr c) \<and>
         distinct (in_flight (workers c)) \<and> set (in_flight (workers c)) \<subseteq> set (claimed evs) \<and>
         (\<forall>s url. fst (getNextUrl s) = Some url \<longrightarrow> url \<notin> visitedUrls s)"
proof -
  from new_EmailScraper_fresh[OF assms(1)] have v0: "visitedUrls (scr (start s0)) = {}" by simp
  from run_claimed[OF assms(2)] v0
  have a: "distinct (claimed evs)" and b: "set (claimed evs) = visitedUrls (scr c)" by auto
  have "flight_inv (start s0)" by (simp add: flight_inv_def)
  with assms(2) have "flight_inv c"
    by (rule run_induct) (rule step_flight_inv)
  with a b getNextUrl_fresh show ?thesis by (auto simp: flight_inv_def)
qed

theorem no_url_fetched_twice_witness:
  "new_EmailScraper parseURL ''example.com/shop?x=1'' example_options = Some example_scraper \<and>
   run parseURL no_match example_events (start example_scraper) = Some example_final \<and>
   claimed example_events = [''https://example.com/'', ''https://example.com/contact''] \<and>
   distinct (claimed example_events) \<and>
   set (claimed example_events) = visitedUrls (scr example_final) \<and>
   fst (getNextUrl example_scraper) = Some ''https://example.com/'' \<and>
   ''https://example.com/'' \<notin> visitedUrls example_scraper \<and>
   run parseURL no_match [Claim 0 ''https://example.com/'', Claim 1 ''https://example.com/'']
     (start example_scraper) = None"
proof -
  have c: "new_EmailScraper parseURL ''example.com/shop?x=1'' example_options = Some example_scraper"
    by code_simp
  have r: "run parseURL no_match example_events (start example_scraper) = Some example_final"
    by code_simp
  have l: "claimed example_events = [''https://example.com/'', ''https://example.com/contact'']"
    by code_simp
  have g: "fst (getNextUrl example_scraper) = Some ''https://example.com/''"
    by code_simp
  have n: "run parseURL no_match [Claim 0 ''https://example.com/'', Claim 1 ''https://example.com/'']
     (start example_scraper) = None"
    by code_simp
  from no_url_fetched_twice[OF c r]
  have d: "distinct (claimed example_events)"
    and v: "set (claimed example_events) = visitedUrls (scr example_final)"
    and f: "\<forall>s url. fst (getNextUrl s) = Some url \<longrightarrow> url \<notin> visitedUrls s"
    by blast+
  from f g have "''https://example.com/'' \<notin> visitedUrls example_scraper" by blast
  with c r l d v g n show ?thesis by simp
qed

end
